theory Spec2Isabelle
  imports Main "HOL-Library.Multiset" "HOL-Library.List_Lexorder"
begin

section \<open>JavaScript strings\<close>

text \<open>
  A JavaScript string is a sequence of UTF-16 code units; \<open>length\<close>, \<open>slice\<close>, \<open>substr\<close>
  and the run offsets \<open>start\<close>/\<open>end\<close> all count code units. A code unit is a natural
  number here. ASCII literals of the source are written \<open>js ''...''\<close>; the literals with
  Vietnamese letters are written as their code units.
\<close>

type_synonym jstring = "nat list"

definition js :: "string \<Rightarrow> jstring" where
  "js s = map of_char s"

text \<open>
  \<open>String.prototype.trim\<close> and the regular-expression class \<open>\s\<close> use the same set:
  WhiteSpace and LineTerminator of ECMAScript.
\<close>

definition isWhite :: "nat \<Rightarrow> bool" where
  "isWhite c \<longleftrightarrow>
     c = 9 \<or> c = 10 \<or> c = 11 \<or> c = 12 \<or> c = 13 \<or> c = 32 \<or> c = 160 \<or> c = 5760 \<or>
     (8192 \<le> c \<and> c \<le> 8202) \<or> c = 8232 \<or> c = 8233 \<or> c = 8239 \<or> c = 8287 \<or>
     c = 12288 \<or> c = 65279"

definition isLineTerminator :: "nat \<Rightarrow> bool" where
  "isLineTerminator c \<longleftrightarrow> c = 10 \<or> c = 13 \<or> c = 8232 \<or> c = 8233"

definition trim :: "jstring \<Rightarrow> jstring" where
  "trim s = rev (dropWhile isWhite (rev (dropWhile isWhite s)))"

text \<open>
  \<open>toUpperCase\<close> and \<open>toLowerCase\<close>: the Unicode case tables are not part of the
  repository, and the source uses the results in four ways only: it compares an
  upper-cased string with \<open>FFFFFF\<close>, a lower-cased one with \<open>none\<close>, looks for the words
  \<open>circle\<close>, \<open>read\<close>, \<open>complete\<close>, \<open>rewrite\<close> and \<open>put\<close> in a lower-cased line, and
  upper-cases the letter of an option, which its pattern restricts to the ASCII letters
  \<open>A\<close> to \<open>D\<close>. The model
  maps the ASCII letters and the one other code unit whose upper-case form is made of the
  letter \<open>F\<close> (the ligature U+FB00, which becomes \<open>FF\<close>), and leaves every other code unit
  as it is. That does not change the outcome of any of these tests: no other code unit
  has an upper-case form made of \<open>F\<close>, and the two code units outside ASCII whose
  lower-case form holds an ASCII letter give \<open>k\<close> (the Kelvin sign) and \<open>i\<close> followed by a
  combining dot (U+0130), which can neither be a letter of \<open>none\<close> nor lie inside one of
  the five words.
\<close>

definition upperUnit :: "nat \<Rightarrow> jstring" where
  "upperUnit c =
     (if 97 \<le> c \<and> c \<le> 122 then [c - 32]
      else if c = 64256 then [70, 70]
      else [c])"

definition lowerUnit :: "nat \<Rightarrow> nat" where
  "lowerUnit c = (if 65 \<le> c \<and> c \<le> 90 then c + 32 else c)"

definition toUpperCase :: "jstring \<Rightarrow> jstring" where
  "toUpperCase s = concat (map upperUnit s)"

definition toLowerCase :: "jstring \<Rightarrow> jstring" where
  "toLowerCase s = map lowerUnit s"

text \<open>\<open>s.slice(a, b)\<close> for \<open>0 \<le> a\<close>, \<open>0 \<le> b\<close>: the code units from \<open>a\<close> up to \<open>b\<close>.\<close>

definition slice :: "jstring \<Rightarrow> nat \<Rightarrow> nat \<Rightarrow> jstring" where
  "slice s a b = take (b - a) (drop a s)"

text \<open>\<open>s.substr(off, len)\<close> for \<open>0 \<le> off\<close>, \<open>0 \<le> len\<close>.\<close>

definition substr :: "jstring \<Rightarrow> nat \<Rightarrow> nat \<Rightarrow> jstring" where
  "substr s off len = take len (drop off s)"

section \<open>The document tree\<close>

text \<open>
  The DOM as far as \<open>parseDocumentXML\<close> reads it: elements with a qualified name,
  attributes and children, and text nodes. A document holds its top-level nodes.
\<close>

datatype node = Element jstring "(jstring \<times> jstring) list" "node list" | TextNode jstring

datatype document = Document "node list"

fun descendants :: "node \<Rightarrow> node list" where
  "descendants (Element t a cs) = concat (map (\<lambda>c. c # descendants c) cs)"
| "descendants (TextNode s) = []"

fun textContent :: "node \<Rightarrow> jstring" where
  "textContent (TextNode s) = s"
| "textContent (Element t a cs) = concat (map textContent cs)"

fun isNamed :: "jstring \<Rightarrow> node \<Rightarrow> bool" where
  "isNamed tag (Element t a cs) = (t = tag)"
| "isNamed tag (TextNode s) = False"

text \<open>\<open>element.getElementsByTagName\<close>: the descendant elements of that name, in document order.\<close>

definition getElementsByTagName :: "node \<Rightarrow> jstring \<Rightarrow> node list" where
  "getElementsByTagName n tag = filter (isNamed tag) (descendants n)"

fun docGetElementsByTagName :: "document \<Rightarrow> jstring \<Rightarrow> node list" where
  "docGetElementsByTagName (Document cs) tag =
     filter (isNamed tag) (concat (map (\<lambda>c. c # descendants c) cs))"

fun getAttribute :: "node \<Rightarrow> jstring \<Rightarrow> jstring option" where
  "getAttribute (Element t a cs) nm = map_of a nm"
| "getAttribute (TextNode s) nm = None"

text \<open>\<open>xs[0]\<close> of a node collection: \<open>undefined\<close> when the collection is empty.\<close>

fun first :: "'a list \<Rightarrow> 'a option" where
  "first [] = None"
| "first (x # xs) = Some x"

section \<open>Runs and paragraphs\<close>

record ParagraphRun =
  run_text :: jstring
  hasHighlight :: bool
  hasUnderline :: bool
  hasBold :: bool
  run_start :: nat
  run_end :: nat

record ParagraphData =
  p_text :: jstring
  runs :: "ParagraphRun list"

text \<open>The text of a run element: its \<open>w:t\<close> descendants' text, joined.\<close>

definition runText :: "node \<Rightarrow> jstring" where
  "runText run = concat (map textContent (getElementsByTagName run (js ''w:t'')))"

definition runProps :: "node \<Rightarrow> node option" where
  "runProps run = first (getElementsByTagName run (js ''w:rPr''))"

definition highlightOf :: "node \<Rightarrow> bool" where
  "highlightOf rPr =
     ((case first (getElementsByTagName rPr (js ''w:highlight'')) of
         None \<Rightarrow> False
       | Some highlight \<Rightarrow> getAttribute highlight (js ''w:val'') \<noteq> Some (js ''none''))
      \<or>
      (case first (getElementsByTagName rPr (js ''w:shd'')) of
         None \<Rightarrow> False
       | Some shd \<Rightarrow>
           (case getAttribute shd (js ''w:fill'') of
              None \<Rightarrow> False
            | Some fill \<Rightarrow> fill \<noteq> [] \<and> fill \<noteq> js ''auto'' \<and> toUpperCase fill \<noteq> js ''FFFFFF'')))"

definition underlineOf :: "node \<Rightarrow> bool" where
  "underlineOf rPr =
     (case first (getElementsByTagName rPr (js ''w:u'')) of
        None \<Rightarrow> False
      | Some underline \<Rightarrow>
          (case getAttribute underline (js ''w:val'') of
             None \<Rightarrow> True
           | Some uVal \<Rightarrow> uVal = [] \<or> toLowerCase uVal \<noteq> js ''none''))"

definition boldOf :: "node \<Rightarrow> bool" where
  "boldOf rPr =
     (case first (getElementsByTagName rPr (js ''w:b'')) of
        None \<Rightarrow> False
      | Some bold \<Rightarrow>
          (case getAttribute bold (js ''w:val'') of
             None \<Rightarrow> True
           | Some bVal \<Rightarrow> bVal = [] \<or> bVal \<noteq> js ''0''))"

text \<open>The loop over the runs of one paragraph (\<open>j\<close>), with \<open>currentPos\<close>.\<close>

fun paragraphRuns :: "node list \<Rightarrow> nat \<Rightarrow> ParagraphRun list" where
  "paragraphRuns [] currentPos = []"
| "paragraphRuns (run # rest) currentPos =
     (if runText run \<noteq> [] then
        \<lparr> run_text = runText run,
          hasHighlight = (case runProps run of None \<Rightarrow> False | Some rPr \<Rightarrow> highlightOf rPr),
          hasUnderline = (case runProps run of None \<Rightarrow> False | Some rPr \<Rightarrow> underlineOf rPr),
          hasBold = (case runProps run of None \<Rightarrow> False | Some rPr \<Rightarrow> boldOf rPr),
          run_start = currentPos,
          run_end = currentPos + length (runText run) \<rparr>
        # paragraphRuns rest (currentPos + length (runText run))
      else paragraphRuns rest currentPos)"

definition paragraphDataOf :: "node \<Rightarrow> ParagraphData" where
  "paragraphDataOf p =
     (let rs = paragraphRuns (getElementsByTagName p (js ''w:r'')) 0
      in \<lparr> p_text = concat (map run_text rs), runs = rs \<rparr>)"

text \<open>The loop over the paragraphs (\<open>i\<close>): a paragraph whose trimmed text is empty is left out.\<close>

definition allParagraphData :: "document \<Rightarrow> ParagraphData list" where
  "allParagraphData xmlDoc =
     filter (\<lambda>pd. trim (p_text pd) \<noteq> [])
       (map paragraphDataOf (docGetElementsByTagName xmlDoc (js ''w:p'')))"

section \<open>Regular expressions\<close>

text \<open>
  The regular expressions of the source are sequences of single-character atoms, each
  with at most one quantifier, capture groups around parts of the sequence (one after
  the other, never nested), and the anchors \<open>^\<close> and \<open>$\<close>. They are kept as syntax
  and run by a backtracking matcher that tries the alternatives in the order ECMAScript
  does (a greedy quantifier takes the longest repetition first, a lazy one the shortest).
\<close>

datatype cclass =
    Lit nat
  | Range nat nat
  | Space
  | Digit
  | Dot
  | OneOf "cclass list"
  | NoneOf "cclass list"

datatype item =
    One cclass
  | Star cclass
  | Plus cclass
  | Opt cclass
  | LazyStar cclass
  | Open
  | Close
  | Bol
  | Eol

text \<open>
  Canonicalize of the \<open>i\<close> flag: a code unit is compared by its upper-case form, and a
  non-ASCII unit never canonicalises to an ASCII one. Beyond ASCII the model maps the three
  letters of the source's patterns (a with circumflex, a with acute, d with stroke) and leaves
  the others. No other code unit has one of the patterns' letters as its upper-case form.
\<close>

definition canonicalize :: "nat \<Rightarrow> nat" where
  "canonicalize c =
     (if 97 \<le> c \<and> c \<le> 122 then c - 32
      else if c = 226 then 194
      else if c = 225 then 193
      else if c = 273 then 272
      else c)"

fun cmatch :: "bool \<Rightarrow> cclass \<Rightarrow> nat \<Rightarrow> bool" where
  "cmatch i (Lit p) c = (if i then canonicalize c = canonicalize p else c = p)"
| "cmatch i (Range a b) c =
     (if i then list_ex (\<lambda>k. canonicalize k = canonicalize c) [a..<Suc b]
      else a \<le> c \<and> c \<le> b)"
| "cmatch i Space c = isWhite c"
| "cmatch i Digit c = (48 \<le> c \<and> c \<le> 57)"
| "cmatch i Dot c = (\<not> isLineTerminator c)"
| "cmatch i (OneOf ks) c = list_ex (\<lambda>k. cmatch i k c) ks"
| "cmatch i (NoneOf ks) c = (\<not> list_ex (\<lambda>k. cmatch i k c) ks)"

type_synonym captures = "(nat \<times> nat) list"

text \<open>
  \<open>rmatch i items pos suf caps\<close>: match \<open>items\<close> at offset \<open>pos\<close>, where \<open>suf\<close> is the
  input from \<open>pos\<close> on. The result is the end offset and the capture groups as offset
  pairs, in the order of the groups: \<open>Open\<close> starts the next group at \<open>pos\<close>, \<open>Close\<close>
  ends it.
\<close>

fun rmatch :: "bool \<Rightarrow> item list \<Rightarrow> nat \<Rightarrow> jstring \<Rightarrow> captures \<Rightarrow> (nat \<times> captures) option" where
  "rmatch i [] pos suf caps = Some (pos, caps)"
| "rmatch i (One k # r) pos [] caps = None"
| "rmatch i (One k # r) pos (c # cs) caps =
     (if cmatch i k c then rmatch i r (pos + 1) cs caps else None)"
| "rmatch i (Star k # r) pos [] caps = rmatch i r pos [] caps"
| "rmatch i (Star k # r) pos (c # cs) caps =
     (if cmatch i k c then
        (case rmatch i (Star k # r) (pos + 1) cs caps of
           Some x \<Rightarrow> Some x
         | None \<Rightarrow> rmatch i r pos (c # cs) caps)
      else rmatch i r pos (c # cs) caps)"
| "rmatch i (Plus k # r) pos [] caps = None"
| "rmatch i (Plus k # r) pos (c # cs) caps =
     (if cmatch i k c then rmatch i (Star k # r) (pos + 1) cs caps else None)"
| "rmatch i (Opt k # r) pos [] caps = rmatch i r pos [] caps"
| "rmatch i (Opt k # r) pos (c # cs) caps =
     (if cmatch i k c then
        (case rmatch i r (pos + 1) cs caps of
           Some x \<Rightarrow> Some x
         | None \<Rightarrow> rmatch i r pos (c # cs) caps)
      else rmatch i r pos (c # cs) caps)"
| "rmatch i (LazyStar k # r) pos [] caps = rmatch i r pos [] caps"
| "rmatch i (LazyStar k # r) pos (c # cs) caps =
     (case rmatch i r pos (c # cs) caps of
        Some x \<Rightarrow> Some x
      | None \<Rightarrow> (if cmatch i k c then rmatch i (LazyStar k # r) (pos + 1) cs caps else None))"
| "rmatch i (Open # r) pos suf caps = rmatch i r pos suf (caps @ [(pos, pos)])"
| "rmatch i (Close # r) pos suf caps =
     rmatch i r pos suf (butlast caps @ [(fst (last caps), pos)])"
| "rmatch i (Bol # r) pos suf caps = (if pos = 0 then rmatch i r pos suf caps else None)"
| "rmatch i (Eol # r) pos suf caps = (if suf = [] then rmatch i r pos suf caps else None)"

text \<open>
  The search of \<open>RegExp.prototype.exec\<close>: the leftmost offset at or after \<open>pos\<close> where the
  pattern matches. The result is the match's index, its end and its groups.
\<close>

fun search :: "bool \<Rightarrow> item list \<Rightarrow> nat \<Rightarrow> jstring \<Rightarrow> (nat \<times> nat \<times> captures) option" where
  "search i items pos [] =
     (case rmatch i items pos [] [] of
        Some (e, caps) \<Rightarrow> Some (pos, e, caps)
      | None \<Rightarrow> None)"
| "search i items pos (c # cs) =
     (case rmatch i items pos (c # cs) [] of
        Some (e, caps) \<Rightarrow> Some (pos, e, caps)
      | None \<Rightarrow> search i items (pos + 1) cs)"

text \<open>\<open>re.exec(s)\<close> with \<open>lastIndex\<close>, and \<open>s.match(re)\<close> for a pattern without the \<open>g\<close> flag.\<close>

definition exec :: "bool \<Rightarrow> item list \<Rightarrow> jstring \<Rightarrow> nat \<Rightarrow> (nat \<times> nat \<times> captures) option" where
  "exec i items s lastIndex =
     (if lastIndex > length s then None else search i items lastIndex (drop lastIndex s))"

definition match :: "bool \<Rightarrow> item list \<Rightarrow> jstring \<Rightarrow> (nat \<times> nat \<times> captures) option" where
  "match i items s = search i items 0 s"

definition captured :: "jstring \<Rightarrow> captures \<Rightarrow> nat \<Rightarrow> jstring" where
  "captured s caps g = slice s (fst (caps ! g)) (snd (caps ! g))"

definition lits :: "string \<Rightarrow> item list" where
  "lits w = map (\<lambda>c. One (Lit (of_char c))) w"

subsection \<open>The patterns of the source\<close>

text \<open>\<^verbatim>\<open>/SECTION\s+([A-Z])\.\s*([^:]+):\s*(.*?POINTS?)/i\<close>\<close>

definition sectionRe :: "item list" where
  "sectionRe =
     lits ''SECTION'' @ [Plus Space, Open, One (Range 65 90), Close, One (Lit 46), Star Space,
       Open, Plus (NoneOf [Lit 58]), Close, One (Lit 58), Star Space,
       Open, LazyStar Dot] @ lits ''POINT'' @ [Opt (Lit 83), Close]"

text \<open>\<^verbatim>\<open>/^([IVX]+)\.\s*(.+)/i\<close>\<close>

definition partRe :: "item list" where
  "partRe =
     [Bol, Open, Plus (OneOf [Lit 73, Lit 86, Lit 88]), Close, One (Lit 46), Star Space,
      Open, Plus Dot, Close]"

text \<open>\<^verbatim>\<open>/^(A surprising gift|Stewart the Dragon)/i\<close>: the two branches of the alternation,
  each under the anchor.\<close>

definition readingRe1 :: "item list" where
  "readingRe1 = [Bol, Open] @ lits ''A surprising gift'' @ [Close]"

definition readingRe2 :: "item list" where
  "readingRe2 = [Bol, Open] @ lits ''Stewart the Dragon'' @ [Close]"

text \<open>\<^verbatim>\<open>/^C.u\s*\d+/i\<close>, the second letter of the word being the code unit 226 (a with
  circumflex).\<close>

definition cauRe :: "item list" where
  "cauRe = [Bol, One (Lit 67), One (Lit 226), One (Lit 117), Star Space, Plus Digit]"

text \<open>\<^verbatim>\<open>/^C.u\s*(\d+)[\.\s:]+(.*)$/i\<close>, with the same first word.\<close>

definition questionRe :: "item list" where
  "questionRe =
     [Bol, One (Lit 67), One (Lit 226), One (Lit 117), Star Space, Open, Plus Digit, Close,
      Plus (OneOf [Lit 46, Space, Lit 58]), Open, Star Dot, Close, Eol]"

text \<open>\<^verbatim>\<open>/^\s*[A-D][\.\)]/i\<close>\<close>

definition optionLineRe :: "item list" where
  "optionLineRe = [Bol, Star Space, One (Range 65 68), One (OneOf [Lit 46, Lit 41])]"

text \<open>The answer line, \<^verbatim>\<open>/...:\s*(.+)/i\<close> after the two Vietnamese words
  (code units 272 225 112, a space, 225 110).\<close>

definition answerRe :: "item list" where
  "answerRe =
     [One (Lit 272), One (Lit 225), One (Lit 112), One (Lit 32), One (Lit 225), One (Lit 110),
      One (Lit 58), Star Space, Open, Plus Dot, Close]"

text \<open>\<^verbatim>\<open>/([A-D])[\.\)]\s*/g\<close>\<close>

definition optionRegex :: "item list" where
  "optionRegex = [Open, One (Range 65 68), Close, One (OneOf [Lit 46, Lit 41]), Star Space]"

section \<open>The exam model\<close>

record QuestionOption =
  letter :: jstring
  opt_text :: jstring
  textWithUnderline :: jstring
  isCorrect :: bool

record SectionInfo =
  sec_letter :: jstring
  sec_name :: jstring
  sec_points :: jstring

datatype QuestionType = multiple_choice | writing | unknown

text \<open>
  \<open>number\<close> is the value \<open>parseInt\<close> returns for a run of decimal digits. A JavaScript
  number is a double: it holds the value of the digits exactly up to \<open>2^53\<close> and a rounded
  value beyond. The model keeps the exact value, so it follows the code for question
  numbers up to \<open>2^53\<close>; the properties on the order in which the sort by number leaves
  the questions assume that bound (\<open>exactNumbers\<close> below).
\<close>

record Question =
  number :: nat
  q_section :: "SectionInfo option"
  part :: "jstring option"
  q_text :: jstring
  options :: "QuestionOption list"
  correctAnswer :: "jstring option"
  q_type :: QuestionType
  passage :: jstring

record ExamSection =
  s_name :: jstring
  description :: jstring
  s_points :: jstring
  s_questions :: "Question list"
  s_readingPassage :: jstring

record ExamData =
  title :: jstring
  timeLimit :: "nat option"
  sections :: "ExamSection list"
  questions :: "Question list"
  answers :: "nat \<rightharpoonup> jstring"

section \<open>buildFormattedText\<close>

text \<open>
  \<open>escapeHtml\<close> assigns the text to a \<open>div\<close> and reads \<open>innerHTML\<close> back: the HTML
  serialisation of a text node, which replaces \<open>&\<close>, the no-break space, \<open><\<close> and \<open>>\<close>.
\<close>

definition escapeUnit :: "nat \<Rightarrow> jstring" where
  "escapeUnit c =
     (if c = 38 then js ''&amp;''
      else if c = 160 then js ''&nbsp;''
      else if c = 60 then js ''&lt;''
      else if c = 62 then js ''&gt;''
      else [c])"

definition escapeHtml :: "jstring \<Rightarrow> jstring" where
  "escapeHtml s = concat (map escapeUnit s)"

text \<open>\<open>s.replace(/P+/g, ' ')\<close> for a character class \<open>P\<close>: every maximal run becomes one space.\<close>

function replaceRuns :: "(nat \<Rightarrow> bool) \<Rightarrow> jstring \<Rightarrow> jstring" where
  "replaceRuns P [] = []"
| "replaceRuns P (c # cs) =
     (if P c then 32 # replaceRuns P (dropWhile P cs) else c # replaceRuns P cs)"
  by pat_completeness auto
termination
  by (relation "measure (\<lambda>(P, s). length s)") (auto simp: less_Suc_eq_le length_dropWhile_le)

text \<open>The part of one run that \<open>buildFormattedText\<close> takes for the range.\<close>

definition textPortion :: "ParagraphRun \<Rightarrow> nat \<Rightarrow> nat \<Rightarrow> jstring" where
  "textPortion run startPos endPos =
     (if run_end run \<le> startPos \<or> run_start run \<ge> endPos then []
      else
        (let overlapStart = max (run_start run) startPos;
             overlapEnd = min (run_end run) endPos;
             runOffset = overlapStart - run_start run;
             runLength = overlapEnd - overlapStart
         in substr (run_text run) runOffset runLength))"

definition applyFormatting :: "ParagraphRun \<Rightarrow> jstring \<Rightarrow> jstring" where
  "applyFormatting run formattedText =
     (if hasUnderline run \<and> hasBold run then
        js ''<span class=\"underlined-part\"><strong>'' @ formattedText @ js ''</strong></span>''
      else if hasUnderline run then
        js ''<span class=\"underlined-part\">'' @ formattedText @ js ''</span>''
      else if hasBold run then
        js ''<strong>'' @ formattedText @ js ''</strong>''
      else formattedText)"

text \<open>What one pass of the loop appends to \<open>result\<close> (nothing where the source continues).\<close>

definition formatRun :: "ParagraphRun \<Rightarrow> nat \<Rightarrow> nat \<Rightarrow> jstring" where
  "formatRun run startPos endPos =
     (if textPortion run startPos endPos = [] then []
      else applyFormatting run (escapeHtml (textPortion run startPos endPos)))"

definition rawFormattedText :: "ParagraphRun list \<Rightarrow> nat \<Rightarrow> nat \<Rightarrow> jstring" where
  "rawFormattedText rs startPos endPos = concat (map (\<lambda>run. formatRun run startPos endPos) rs)"

definition buildFormattedText :: "ParagraphRun list \<Rightarrow> nat \<Rightarrow> nat \<Rightarrow> jstring" where
  "buildFormattedText rs startPos endPos =
     trim (replaceRuns isWhite (rawFormattedText rs startPos endPos))"

section \<open>extractOptionsWithUnderline\<close>

record OptMatch =
  m_letter :: jstring
  matchStart :: nat
  matchEnd :: nat
  contentStart :: nat

definition endsWithSpace :: "jstring \<Rightarrow> bool" where
  "endsWithSpace s \<longleftrightarrow> s \<noteq> [] \<and> last s = 32"

text \<open>
  The loop \<open>while ((m = optionRegex.exec(line)) !== null)\<close>. Each match of the pattern
  ends after \<open>lastIndex\<close> and inside the line, so the loop ends; the test of that fact in
  the definition is what its termination proof uses, and \<open>optionExecLoop_unfold\<close> below
  shows that the test never fails.
\<close>

function optionExecLoop :: "jstring \<Rightarrow> nat \<Rightarrow> OptMatch list" where
  "optionExecLoop line lastIndex =
     (case exec False optionRegex line lastIndex of
        None \<Rightarrow> []
      | Some (index, e, caps) \<Rightarrow>
          (if lastIndex < e \<and> e \<le> length line then
             \<lparr> m_letter = toUpperCase (captured line caps 0),
               matchStart = index,
               matchEnd = index + (e - index) - (if endsWithSpace (slice line index e) then 1 else 0),
               contentStart = index + (e - index) \<rparr>
             # optionExecLoop line e
           else []))"
  by pat_completeness auto
termination
  by (relation "measure (\<lambda>(line, lastIndex). length line - lastIndex)") auto

definition overlapsHighlight :: "ParagraphRun \<Rightarrow> nat \<Rightarrow> nat \<Rightarrow> bool" where
  "overlapsHighlight run mStart nextStart \<longleftrightarrow>
     max (run_start run) mStart < min (run_end run) nextStart \<and> hasHighlight run"

definition normalizeOptionText :: "jstring \<Rightarrow> jstring" where
  "normalizeOptionText s = trim (replaceRuns isWhite (replaceRuns (\<lambda>c. c = 9) (trim s)))"

text \<open>The loop over the matches (\<open>i\<close>); \<open>opts\<close> is \<open>question.options\<close>.\<close>

fun optionsLoop :: "ParagraphData \<Rightarrow> OptMatch list \<Rightarrow> QuestionOption list \<Rightarrow> QuestionOption list" where
  "optionsLoop pData [] opts = opts"
| "optionsLoop pData (mt # rest) opts =
     (let nextStart = (case rest of [] \<Rightarrow> length (p_text pData) | nx # _ \<Rightarrow> matchStart nx);
          optionText = normalizeOptionText (slice (p_text pData) (contentStart mt) nextStart)
      in
        if find (\<lambda>opt. letter opt = m_letter mt) opts \<noteq> None \<or> optionText = [] then
          optionsLoop pData rest opts
        else
          optionsLoop pData rest
            (opts @
              [\<lparr> letter = m_letter mt,
                 opt_text = optionText,
                 textWithUnderline = buildFormattedText (runs pData) (contentStart mt) nextStart,
                 isCorrect = list_ex (\<lambda>run. overlapsHighlight run (matchStart mt) nextStart) (runs pData) \<rparr>]))"

text \<open>
  \<open>localeCompare\<close> orders the letters \<open>A\<close> to \<open>D\<close> as their code units are ordered, and
  every option letter is one of them (\<open>optionsLoop_letters\<close> below); \<open>Array.prototype.sort\<close>
  is stable.
\<close>

definition extractOptionsWithUnderline :: "ParagraphData \<Rightarrow> Question \<Rightarrow> Question" where
  "extractOptionsWithUnderline pData question =
     (case optionExecLoop (p_text pData) 0 of
        [] \<Rightarrow> question
      | mt # rest \<Rightarrow>
          (let opts = optionsLoop pData (mt # rest) (options question)
           in question
                \<lparr> options := sort_key letter opts,
                  q_type := (if length opts \<ge> 2 \<and> q_type question \<noteq> writing
                             then multiple_choice else q_type question) \<rparr>))"

section \<open>parseQuestionsFromParagraphs\<close>

text \<open>The variables of the loop, and \<open>examData.questions\<close> as \<open>out_questions\<close>.\<close>

record ParseState =
  currentSection :: "SectionInfo option"
  currentPart :: "jstring option"
  currentQuestion :: "Question option"
  readingPassage :: jstring
  inReading :: bool
  out_questions :: "Question list"

fun startsWith :: "jstring \<Rightarrow> jstring \<Rightarrow> bool" where
  "startsWith s [] = True"
| "startsWith [] (c # w) = False"
| "startsWith (d # s) (c # w) = (d = c \<and> startsWith s w)"

fun includesStr :: "jstring \<Rightarrow> jstring \<Rightarrow> bool" where
  "includesStr [] w = (w = [])"
| "includesStr (c # cs) w = (startsWith (c # cs) w \<or> includesStr cs w)"

text \<open>
  \<open>parseInt(digits, 10)\<close> on a run of decimal digits: the value of the digits, which is
  what the code computes as long as that value is at most \<open>2^53\<close>.
\<close>

definition parseInt :: "jstring \<Rightarrow> nat" where
  "parseInt ds = foldl (\<lambda>a d. 10 * a + (d - 48)) 0 ds"

text \<open>Resolving the type of a question before it is pushed.\<close>

definition finalizeQuestion :: "Question \<Rightarrow> Question" where
  "finalizeQuestion q =
     (if q_type q = unknown then
        q\<lparr> q_type := (if length (options q) \<ge> 2 then multiple_choice else writing) \<rparr>
      else q)"

definition pushCurrent :: "ParseState \<Rightarrow> Question list" where
  "pushCurrent st =
     (case currentQuestion st of
        None \<Rightarrow> out_questions st
      | Some q \<Rightarrow> out_questions st @ [finalizeQuestion q])"

definition hasPartKeyword :: "jstring \<Rightarrow> bool" where
  "hasPartKeyword line \<longleftrightarrow>
     includesStr (toLowerCase line) (js ''circle'') \<or>
     includesStr (toLowerCase line) (js ''read'') \<or>
     includesStr (toLowerCase line) (js ''complete'') \<or>
     includesStr (toLowerCase line) (js ''rewrite'') \<or>
     includesStr (toLowerCase line) (js ''put'')"

definition isReadingStart :: "jstring \<Rightarrow> bool" where
  "isReadingStart line \<longleftrightarrow>
     match True readingRe1 line \<noteq> None \<or> match True readingRe2 line \<noteq> None"

text \<open>The question started by a question line, before its options are extracted.\<close>

definition newQuestion :: "ParseState \<Rightarrow> jstring \<Rightarrow> captures \<Rightarrow> Question" where
  "newQuestion st line caps =
     \<lparr> number = parseInt (captured line caps 0),
       q_section = currentSection st,
       part = (case currentPart st of None \<Rightarrow> None | Some p \<Rightarrow> if p = [] then None else Some p),
       q_text = trim (captured line caps 1),
       options = [],
       correctAnswer = None,
       q_type = unknown,
       passage = readingPassage st \<rparr>"

text \<open>
  The last three branches of the loop body, which all need a question in progress: an
  option line, an answer line, a continuation line.
\<close>

definition questionLine :: "ParagraphData \<Rightarrow> jstring \<Rightarrow> Question \<Rightarrow> Question" where
  "questionLine pData line q =
     (if match True optionLineRe line \<noteq> None then extractOptionsWithUnderline pData q
      else
        (case match True answerRe line of
           Some (index, e, caps) \<Rightarrow>
             (let ansText = trim (captured line caps 0)
              in q\<lparr> correctAnswer := (if ansText \<noteq> [] then Some ansText else correctAnswer q),
                    q_type := writing \<rparr>)
         | None \<Rightarrow>
             q\<lparr> q_text := q_text q @ (if q_text q \<noteq> [] then [10] else []) @ line \<rparr>))"

text \<open>One pass of the loop over the paragraphs.\<close>

definition parseLine :: "ParseState \<Rightarrow> ParagraphData \<Rightarrow> ParseState" where
  "parseLine st pData =
     (let line = trim (p_text pData) in
      if line = [] then st
      else
        (case match True sectionRe line of
           Some (index, e, caps) \<Rightarrow>
             st\<lparr> currentSection :=
                   Some \<lparr> sec_letter = captured line caps 0,
                          sec_name = trim (captured line caps 1),
                          sec_points = captured line caps 2 \<rparr> \<rparr>
         | None \<Rightarrow>
             if match True partRe line \<noteq> None \<and> hasPartKeyword line then
               st\<lparr> currentPart := Some line \<rparr>
             else if isReadingStart line then
               st\<lparr> inReading := True, readingPassage := line @ [10] \<rparr>
             else if inReading st \<and> match True cauRe line = None then
               st\<lparr> readingPassage := readingPassage st @ line @ [10] \<rparr>
             else
               (let st1 = (if match True cauRe line \<noteq> None then st\<lparr> inReading := False \<rparr> else st)
                in
                  case match True questionRe line of
                    Some (index, e, caps) \<Rightarrow>
                      st1\<lparr> out_questions := pushCurrent st1,
                           currentQuestion :=
                             Some (extractOptionsWithUnderline pData (newQuestion st1 line caps)) \<rparr>
                  | None \<Rightarrow>
                      (case currentQuestion st1 of
                         None \<Rightarrow> st1
                       | Some q \<Rightarrow> st1\<lparr> currentQuestion := Some (questionLine pData line q) \<rparr>))))"

definition initialState :: "Question list \<Rightarrow> ParseState" where
  "initialState qs =
     \<lparr> currentSection = None, currentPart = None, currentQuestion = None,
       readingPassage = [], inReading = False, out_questions = qs \<rparr>"

text \<open>The loop and the push of the last question: \<open>examData.questions\<close> before the post-pass.\<close>

definition collectQuestions :: "ParagraphData list \<Rightarrow> Question list \<Rightarrow> Question list" where
  "collectQuestions paragraphs qs = pushCurrent (foldl parseLine (initialState qs) paragraphs)"

text \<open>
  The callback of the \<open>forEach\<close> that records the answers of the multiple-choice
  questions: it changes the question and \<open>examData.answers\<close>.
\<close>

definition markAnswer :: "Question \<Rightarrow> (nat \<rightharpoonup> jstring) \<Rightarrow> Question \<times> (nat \<rightharpoonup> jstring)" where
  "markAnswer q ans =
     (if q_type q \<noteq> multiple_choice then (q, ans)
      else
        (case find isCorrect (options q) of
           None \<Rightarrow> (q, ans)
         | Some correctOpt \<Rightarrow>
             (q\<lparr> correctAnswer := Some (letter correctOpt) \<rparr>,
              ans(number q \<mapsto> letter correctOpt))))"

fun markAnswers :: "Question list \<Rightarrow> (nat \<rightharpoonup> jstring) \<Rightarrow> Question list \<times> (nat \<rightharpoonup> jstring)" where
  "markAnswers [] ans = ([], ans)"
| "markAnswers (q # qs) ans =
     (case markAnswer q ans of
        (q', ans1) \<Rightarrow> (case markAnswers qs ans1 of (qs', ans2) \<Rightarrow> (q' # qs', ans2)))"

section \<open>groupQuestionsIntoSections\<close>

text \<open>
  A JavaScript \<open>Map\<close> keeps its keys in the order they were first set: an association
  list, a new key going to the end.
\<close>

type_synonym sectionMap = "(jstring \<times> Question list) list"

fun mapSet :: "sectionMap \<Rightarrow> jstring \<Rightarrow> Question list \<Rightarrow> sectionMap" where
  "mapSet [] k v = [(k, v)]"
| "mapSet ((k', v') # m) k v = (if k' = k then (k, v) # m else (k', v') # mapSet m k v)"

definition sectionKey :: "Question \<Rightarrow> jstring" where
  "sectionKey q =
     (case q_section q of
        Some s \<Rightarrow> sec_letter s @ js ''-'' @ sec_name s
      | None \<Rightarrow> js ''default'')"

text \<open>One pass of the first \<open>forEach\<close>: the array under the key, made if need be, gets \<open>q\<close>.\<close>

definition addToSection :: "sectionMap \<Rightarrow> Question \<Rightarrow> sectionMap" where
  "addToSection m q =
     (let m1 = (if map_of m (sectionKey q) = None then mapSet m (sectionKey q) [] else m)
      in case map_of m1 (sectionKey q) of
           None \<Rightarrow> m1
         | Some qs \<Rightarrow> mapSet m1 (sectionKey q) (qs @ [q]))"

text \<open>
  One pass of the second \<open>forEach\<close>. \<open>questions[0]\<close> of an empty array is \<open>undefined\<close>, and
  reading its \<open>section\<close> throws a TypeError: the result \<open>None\<close>.
\<close>

definition sectionOf :: "jstring \<times> Question list \<Rightarrow> ExamSection option" where
  "sectionOf entry =
     (case snd entry of
        [] \<Rightarrow> None
      | firstQ # rest \<Rightarrow>
          Some \<lparr> s_name =
                   (case q_section firstQ of
                      Some s \<Rightarrow> js ''SECTION '' @ sec_letter s @ js ''. '' @ sec_name s
                    | None \<Rightarrow> [84, 7845, 116, 32, 99, 7843, 32, 99, 226, 117, 32, 104, 7887, 105]),
                 description = (case part firstQ of Some p \<Rightarrow> p | None \<Rightarrow> []),
                 s_points = (case q_section firstQ of Some s \<Rightarrow> sec_points s | None \<Rightarrow> []),
                 s_questions = snd entry,
                 s_readingPassage = passage firstQ \<rparr>)"

definition buildSectionMap :: "Question list \<Rightarrow> sectionMap" where
  "buildSectionMap qs = foldl addToSection [] qs"

text \<open>The sections pushed onto \<open>examData.sections\<close>; \<open>None\<close> is the TypeError.\<close>

definition groupQuestionsIntoSections :: "Question list \<Rightarrow> ExamSection list option" where
  "groupQuestionsIntoSections qs = those (map sectionOf (buildSectionMap qs))"

definition parseQuestionsFromParagraphs :: "ParagraphData list \<Rightarrow> ExamData \<Rightarrow> ExamData option" where
  "parseQuestionsFromParagraphs paragraphs examData =
     (case markAnswers (collectQuestions paragraphs (questions examData)) (answers examData) of
        (qs, ans) \<Rightarrow>
          (case groupQuestionsIntoSections (sort_key number qs) of
             None \<Rightarrow> None
           | Some secs \<Rightarrow>
               Some (examData\<lparr> questions := sort_key number qs,
                               answers := ans,
                               sections := sections examData @ secs \<rparr>)))"

section \<open>parseDocumentXML and parseWordToExam\<close>

definition emptyExamData :: ExamData where
  "emptyExamData =
     \<lparr> title = [272, 7873, 32, 116, 104, 105, 32, 84, 105, 7871, 110, 103, 32, 65, 110, 104],
       timeLimit = Some 60,
       sections = [],
       questions = [],
       answers = Map.empty \<rparr>"

definition parseDocumentXML :: "document \<Rightarrow> ExamData option" where
  "parseDocumentXML xmlDoc = parseQuestionsFromParagraphs (allParagraphData xmlDoc) emptyExamData"

text \<open>
  \<open>parseWordToExam\<close> calls two libraries that are not part of the repository. They are
  parameters of the model:
  \<^item> \<open>loadAsync\<close>, JSZip on the bytes of the file: the entries of the archive by path, as
    text, or \<open>None\<close> when JSZip rejects the bytes;
  \<^item> \<open>parseFromString\<close>, the browser's \<open>DOMParser\<close>: it returns a document for every text and
    never throws.
\<close>

datatype parseError = ZipRejected | DocumentXmlNotFound | TypeError

definition parseWordToExam ::
  "('f \<Rightarrow> (jstring \<rightharpoonup> jstring) option) \<Rightarrow> (jstring \<Rightarrow> document) \<Rightarrow> 'f \<Rightarrow> parseError + ExamData" where
  "parseWordToExam loadAsync parseFromString file =
     (case loadAsync file of
        None \<Rightarrow> Inl ZipRejected
      | Some archive \<Rightarrow>
          (case archive (js ''word/document.xml'') of
             None \<Rightarrow> Inl DocumentXmlNotFound
           | Some documentXml \<Rightarrow>
               if documentXml = [] then Inl DocumentXmlNotFound
               else
                 (case parseDocumentXML (parseFromString documentXml) of
                    None \<Rightarrow> Inl TypeError
                  | Some examData \<Rightarrow> Inr examData)))"

section \<open>Notions used to state the properties\<close>

text \<open>
  A paragraph is a question-start line when the loop body reaches the branch that starts
  a question: its trimmed text is not empty, is no section header, no part header and no
  passage title, and matches the question pattern. \<open>lineNumber\<close> is the number the
  branch parses from it.
\<close>

definition isQuestionStartLine :: "ParagraphData \<Rightarrow> bool" where
  "isQuestionStartLine pData \<longleftrightarrow>
     trim (p_text pData) \<noteq> [] \<and>
     match True sectionRe (trim (p_text pData)) = None \<and>
     \<not> (match True partRe (trim (p_text pData)) \<noteq> None \<and> hasPartKeyword (trim (p_text pData))) \<and>
     \<not> isReadingStart (trim (p_text pData)) \<and>
     match True questionRe (trim (p_text pData)) \<noteq> None"

definition lineNumber :: "ParagraphData \<Rightarrow> nat" where
  "lineNumber pData =
     (case match True questionRe (trim (p_text pData)) of
        None \<Rightarrow> 0
      | Some (index, e, caps) \<Rightarrow> parseInt (captured (trim (p_text pData)) caps 0))"

text \<open>
  The question numbers of a list of paragraphs are exact when the digits of every
  question-start line denote a value of at most \<open>2^53 = 9007199254740992\<close>, the range in
  which \<open>parseInt\<close> returns the value of the digits.
\<close>

definition exactNumbers :: "ParagraphData list \<Rightarrow> bool" where
  "exactNumbers ps \<longleftrightarrow>
     list_all (\<lambda>p. isQuestionStartLine p \<longrightarrow> lineNumber p \<le> 9007199254740992) ps"

text \<open>
  The reading passage as the specification words it. The role of a line follows the
  priority of the transition rules: a section header, a part header, a passage title, a
  line that begins like a question (the word and a number), and any other line. The
  passage block in force after some paragraphs starts at the last passage title among
  them; its text is the title and the other lines that follow it up to the first line
  that begins like a question, each ended by a line feed, and the block is open as long
  as no such line has come. Before the first title the text is empty.
\<close>

datatype lineRole = BlankLine | SectionHeader | PartHeader | PassageStart | QuestionLine | OtherLine

definition roleOf :: "ParagraphData \<Rightarrow> lineRole" where
  "roleOf pData =
     (if trim (p_text pData) = [] then BlankLine
      else if match True sectionRe (trim (p_text pData)) \<noteq> None then SectionHeader
      else if match True partRe (trim (p_text pData)) \<noteq> None \<and> hasPartKeyword (trim (p_text pData))
        then PartHeader
      else if isReadingStart (trim (p_text pData)) then PassageStart
      else if match True cauRe (trim (p_text pData)) \<noteq> None then QuestionLine
      else OtherLine)"

definition lastStart :: "ParagraphData list \<Rightarrow> ParagraphData option" where
  "lastStart ps = find (\<lambda>p. roleOf p = PassageStart) (rev ps)"

definition lastBlock :: "ParagraphData list \<Rightarrow> ParagraphData list" where
  "lastBlock ps = rev (takeWhile (\<lambda>p. roleOf p \<noteq> PassageStart) (rev ps))"

definition passageOf :: "ParagraphData list \<Rightarrow> jstring" where
  "passageOf ps =
     (case lastStart ps of
        None \<Rightarrow> []
      | Some start \<Rightarrow>
          concat (map (\<lambda>p. trim (p_text p) @ [10])
            (start # filter (\<lambda>p. roleOf p = OtherLine)
                       (takeWhile (\<lambda>p. roleOf p \<noteq> QuestionLine) (lastBlock ps)))))"

definition blockOpen :: "ParagraphData list \<Rightarrow> bool" where
  "blockOpen ps \<longleftrightarrow>
     lastStart ps \<noteq> None \<and> \<not> list_ex (\<lambda>p. roleOf p = QuestionLine) (lastBlock ps)"

text \<open>
  The bold flag as the specification words it, for a given sentinel value: a bold property
  is present (the first \<open>w:b\<close> under the run's first \<open>w:rPr\<close>) and its \<open>w:val\<close> is absent
  or not the sentinel.
\<close>

definition boldProperty :: "node \<Rightarrow> node option" where
  "boldProperty run =
     (case runProps run of
        None \<Rightarrow> None
      | Some rPr \<Rightarrow> first (getElementsByTagName rPr (js ''w:b'')))"

definition boldBySpec :: "jstring \<Rightarrow> node \<Rightarrow> bool" where
  "boldBySpec sentinel run \<longleftrightarrow>
     (case boldProperty run of
        None \<Rightarrow> False
      | Some bold \<Rightarrow>
          getAttribute bold (js ''w:val'') = None \<or>
          getAttribute bold (js ''w:val'') \<noteq> Some sentinel)"

text \<open>The keys of a list in the order in which they are first seen.\<close>

definition firstSeen :: "'a list \<Rightarrow> 'a list" where
  "firstSeen ks = rev (remdups (rev ks))"

text \<open>
  Stripping the markup tags: everything from a \<open><\<close> to the next \<open>>\<close> is left out.
  \<open>normalizeWs\<close> collapses every run of whitespace to one space and trims both ends.

  The plain content of an offset range: a run's text lies at the offsets from its start
  on, one code unit at each, and the part of the run in the range is made of the code
  units whose offset is at least \<open>startPos\<close> and less than \<open>endPos\<close>; the plain content is
  the parts of the runs, in run order. A run is well formed when its end is its start
  plus the length of its text, as the run extractor makes it.
\<close>

fun strip :: "bool \<Rightarrow> jstring \<Rightarrow> jstring" where
  "strip inTag [] = []"
| "strip inTag (c # cs) =
     (if inTag then strip (c \<noteq> 62) cs
      else if c = 60 then strip True cs
      else c # strip False cs)"

definition stripTags :: "jstring \<Rightarrow> jstring" where
  "stripTags s = strip False s"

definition runPart :: "ParagraphRun \<Rightarrow> nat \<Rightarrow> nat \<Rightarrow> jstring" where
  "runPart run startPos endPos =
     map snd
       (filter (\<lambda>(pos, c). startPos \<le> pos \<and> pos < endPos)
          (zip [run_start run ..< run_start run + length (run_text run)] (run_text run)))"

definition plainContent :: "ParagraphRun list \<Rightarrow> nat \<Rightarrow> nat \<Rightarrow> jstring" where
  "plainContent rs startPos endPos = concat (map (\<lambda>run. runPart run startPos endPos) rs)"

definition wellFormedRun :: "ParagraphRun \<Rightarrow> bool" where
  "wellFormedRun run \<longleftrightarrow> run_end run = run_start run + length (run_text run)"

definition normalizeWs :: "jstring \<Rightarrow> jstring" where
  "normalizeWs s = trim (replaceRuns isWhite s)"

section \<open>Notions used in the proofs\<close>

text \<open>
  The whitespace normalisation as one pass with three states, and the output of
  \<open>buildFormattedText\<close> before its clean-up as a list of tokens: a tag or one code unit of
  escaped text.
\<close>

definition trimEnd :: "jstring \<Rightarrow> jstring" where
  "trimEnd s = rev (dropWhile isWhite (rev s))"

datatype nstate = AtStart | InWord | InGap

fun normFrom :: "nstate \<Rightarrow> jstring \<Rightarrow> jstring" where
  "normFrom q [] = []"
| "normFrom AtStart (c # cs) = (if isWhite c then normFrom AtStart cs else c # normFrom InWord cs)"
| "normFrom InWord (c # cs) = (if isWhite c then normFrom InGap cs else c # normFrom InWord cs)"
| "normFrom InGap (c # cs) = (if isWhite c then normFrom InGap cs else 32 # c # normFrom InWord cs)"

type_synonym tok = "jstring + nat"

fun flat :: "tok list \<Rightarrow> jstring" where
  "flat [] = []"
| "flat (Inl t # ts) = t @ flat ts"
| "flat (Inr c # ts) = c # flat ts"

fun chars :: "tok list \<Rightarrow> jstring" where
  "chars [] = []"
| "chars (Inl t # ts) = chars ts"
| "chars (Inr c # ts) = c # chars ts"

fun normToks :: "nstate \<Rightarrow> tok list \<Rightarrow> tok list" where
  "normToks q [] = []"
| "normToks q (Inl t # ts) = (if q = InGap then [Inr 32] else []) @ Inl t # normToks InWord ts"
| "normToks AtStart (Inr c # ts) =
     (if isWhite c then normToks AtStart ts else Inr c # normToks InWord ts)"
| "normToks InWord (Inr c # ts) =
     (if isWhite c then normToks InGap ts else Inr c # normToks InWord ts)"
| "normToks InGap (Inr c # ts) =
     (if isWhite c then normToks InGap ts else Inr 32 # Inr c # normToks InWord ts)"

definition isTag :: "jstring \<Rightarrow> bool" where
  "isTag t \<longleftrightarrow>
     t = js ''<span class=\"underlined-part\">'' \<or> t = js ''<strong>'' \<or>
     t = js ''</strong>'' \<or> t = js ''</span>''"

fun wellFormed :: "tok list \<Rightarrow> bool" where
  "wellFormed [] = True"
| "wellFormed (Inl t # ts) = (isTag t \<and> wellFormed ts)"
| "wellFormed (Inr c # ts) = (c \<noteq> 60 \<and> wellFormed ts)"

definition runToks :: "ParagraphRun \<Rightarrow> nat \<Rightarrow> nat \<Rightarrow> tok list" where
  "runToks run startPos endPos =
     (if textPortion run startPos endPos = [] then []
      else
        (if hasUnderline run \<and> hasBold run then
           [Inl (js ''<span class=\"underlined-part\">''), Inl (js ''<strong>'')] @
           map Inr (escapeHtml (textPortion run startPos endPos)) @
           [Inl (js ''</strong>''), Inl (js ''</span>'')]
         else if hasUnderline run then
           [Inl (js ''<span class=\"underlined-part\">'')] @
           map Inr (escapeHtml (textPortion run startPos endPos)) @ [Inl (js ''</span>'')]
         else if hasBold run then
           [Inl (js ''<strong>'')] @
           map Inr (escapeHtml (textPortion run startPos endPos)) @ [Inl (js ''</strong>'')]
         else map Inr (escapeHtml (textPortion run startPos endPos))))"

section \<open>Inputs of the examples\<close>

text \<open>
  A paragraph with one unformatted run, the first word of a question line (\<open>cau\<close>)
  and the two words of an answer line, as code units.
\<close>

definition plainRun :: "jstring \<Rightarrow> nat \<Rightarrow> ParagraphRun" where
  "plainRun t pos =
     \<lparr> run_text = t, hasHighlight = False, hasUnderline = False, hasBold = False,
       run_start = pos, run_end = pos + length t \<rparr>"

definition plain :: "jstring \<Rightarrow> ParagraphData" where
  "plain t = \<lparr> p_text = t, runs = [plainRun t 0] \<rparr>"

definition cau :: jstring where
  "cau = [67, 226, 117]"

definition dapAn :: jstring where
  "dapAn = [272, 225, 112, 32, 225, 110]"

text \<open>
  The question line of the scenario, \<open>cau\<close> followed by \<open> 1. Choose the best answer. A. cat B. dog\<close>,
  in three runs: the marker \<open>B.\<close> (offsets 38 to 40) is highlighted.
\<close>

definition scenarioQuestion :: ParagraphData where
  "scenarioQuestion =
     \<lparr> p_text = cau @ js '' 1. Choose the best answer. A. cat B. dog'',
       runs = [plainRun (cau @ js '' 1. Choose the best answer. A. cat '') 0,
               (plainRun (js ''B.'') 38) \<lparr> hasHighlight := True \<rparr>,
               plainRun (js '' dog'') 40] \<rparr>"

definition scenario :: "ParagraphData list" where
  "scenario =
     [plain (js ''SECTION A. GRAMMAR: 2.0 POINTS''), scenarioQuestion, plain (dapAn @ js '': ...'')]"

text \<open>A run element with the given run properties and text, and a paragraph element.\<close>

definition runElement :: "node list \<Rightarrow> jstring \<Rightarrow> node" where
  "runElement props t =
     Element (js ''w:r'') [] [Element (js ''w:rPr'') [] props, Element (js ''w:t'') [] [TextNode t]]"

definition boldElement :: "(jstring \<times> jstring) list \<Rightarrow> node" where
  "boldElement attrs = Element (js ''w:b'') attrs []"

definition boldDocument :: document where
  "boldDocument =
     Document [Element (js ''w:document'') [] [Element (js ''w:body'') []
       [Element (js ''w:p'') []
          [runElement [boldElement [(js ''w:val'', js ''false'')]] (js ''a''),
           runElement [boldElement [(js ''w:val'', js ''0'')]] (js ''b''),
           runElement [boldElement []] (js ''c''),
           runElement [] (js ''d''),
           runElement [boldElement []] []]]]]"

text \<open>
  An archive whose body entry is not well-formed XML, and what \<open>DOMParser\<close> returns for
  such text: by the DOM standard a document whose root is a \<open>parsererror\<close> element.
\<close>

definition brokenArchive :: "unit \<Rightarrow> (jstring \<rightharpoonup> jstring) option" where
  "brokenArchive file = Some [js ''word/document.xml'' \<mapsto> js ''<w:document><w:p>'']"

definition parserErrorDocument :: document where
  "parserErrorDocument =
     Document [Element (js ''parsererror'')
       [(js ''xmlns'', js ''http://www.mozilla.org/newlayout/xml/parsererror.xml'')]
       [TextNode (js ''XML Parsing Error: no element found'')]]"

definition domParserOnError :: "jstring \<Rightarrow> document" where
  "domParserOnError documentXml = parserErrorDocument"

text \<open>Three questions under the section headers A, B and A again.\<close>

definition interleaved :: "ParagraphData list" where
  "interleaved =
     [plain (js ''SECTION A. GRAMMAR: 1 POINT''), plain (cau @ js '' 1. a''),
      plain (js ''SECTION B. WRITING: 1 POINT''), plain (cau @ js '' 2. b''),
      plain (js ''SECTION A. GRAMMAR: 1 POINT''), plain (cau @ js '' 3. c'')]"

text \<open>A question without options, as a question-start line makes it.\<close>

definition blankQuestion :: Question where
  "blankQuestion =
     \<lparr> number = 1, q_section = None, part = None, q_text = [], options = [],
       correctAnswer = None, q_type = unknown, passage = [] \<rparr>"

section \<open>Properties\<close>

declare optionExecLoop.simps [simp del]

subsection \<open>The parse returns\<close>

lemma mapSet_twice: "mapSet (mapSet m k a) k b = mapSet m k b"
  by (induction m) auto

lemma map_of_mapSet_same: "map_of (mapSet m k v) k = Some v"
  by (induction m) auto

lemma addToSection_eq:
  "addToSection m q =
     mapSet m (sectionKey q) ((case map_of m (sectionKey q) of None \<Rightarrow> [] | Some qs \<Rightarrow> qs) @ [q])"
  by (cases "map_of m (sectionKey q)") (simp_all add: addToSection_def map_of_mapSet_same mapSet_twice)

lemma set_mapSet: "e \<in> set (mapSet m k v) \<Longrightarrow> e \<in> set m \<or> e = (k, v)"
  by (induction m) (auto split: if_splits)

lemma addToSection_nonempty:
  assumes "\<forall>e\<in>set m. snd e \<noteq> []"
  shows "\<forall>e\<in>set (addToSection m q). snd e \<noteq> []"
proof
  fix e assume "e \<in> set (addToSection m q)"
  then have "e \<in> set m \<or> snd e = (case map_of m (sectionKey q) of None \<Rightarrow> [] | Some qs \<Rightarrow> qs) @ [q]"
    unfolding addToSection_eq by (auto dest: set_mapSet)
  with assms show "snd e \<noteq> []" by auto
qed

lemma foldl_addToSection_nonempty:
  "\<forall>e\<in>set m. snd e \<noteq> [] \<Longrightarrow> \<forall>e\<in>set (foldl addToSection m qs). snd e \<noteq> []"
proof (induction qs arbitrary: m)
  case Nil
  then show ?case by simp
next
  case (Cons q qs)
  from Cons.prems have "\<forall>e\<in>set (addToSection m q). snd e \<noteq> []"
    by (rule addToSection_nonempty)
  then have "\<forall>e\<in>set (foldl addToSection (addToSection m q) qs). snd e \<noteq> []"
    by (rule Cons.IH)
  then show ?case by simp
qed

lemma those_map_Some:
  "\<forall>x\<in>set xs. f x \<noteq> None \<Longrightarrow> those (map f xs) = Some (map (\<lambda>x. the (f x)) xs)"
  by (induction xs) auto

lemma sectionOf_Some: "snd e \<noteq> [] \<Longrightarrow> sectionOf e \<noteq> None"
  by (cases "snd e") (simp_all add: sectionOf_def)

lemma groupQuestionsIntoSections_total:
  "groupQuestionsIntoSections qs = Some (map (\<lambda>e. the (sectionOf e)) (buildSectionMap qs))"
proof -
  have "\<forall>e\<in>set (foldl addToSection [] qs). snd e \<noteq> []"
    by (rule foldl_addToSection_nonempty) simp
  then have "\<forall>e\<in>set (buildSectionMap qs). sectionOf e \<noteq> None"
    unfolding buildSectionMap_def using sectionOf_Some by blast
  then show ?thesis
    unfolding groupQuestionsIntoSections_def by (rule those_map_Some)
qed

lemma parseQuestionsFromParagraphs_total:
  "\<exists>r. parseQuestionsFromParagraphs ps e = Some r"
  by (simp add: parseQuestionsFromParagraphs_def groupQuestionsIntoSections_total split: prod.splits)

subsection \<open>Facts about the patterns\<close>

lemma rmatch_Star_only: "rmatch i [Star k] pos s caps \<noteq> None"
  by (induction s arbitrary: pos) (auto split: option.splits)

lemma rmatch_Star_sound:
  "rmatch i (Star k # r) pos s caps = Some x \<Longrightarrow>
     \<exists>n\<le>length s. (\<forall>j<n. cmatch i k (s ! j)) \<and> rmatch i r (pos + n) (drop n s) caps = Some x"
proof (induction s arbitrary: pos)
  case Nil
  then show ?case by auto
next
  case (Cons c cs)
  show ?case
  proof (cases "cmatch i k c \<and> rmatch i (Star k # r) (pos + 1) cs caps \<noteq> None")
    case True
    with Cons.prems have "rmatch i (Star k # r) (pos + 1) cs caps = Some x" by auto
    from Cons.IH [OF this] obtain n where n: "n \<le> length cs" "\<forall>j<n. cmatch i k (cs ! j)"
      "rmatch i r (pos + 1 + n) (drop n cs) caps = Some x"
      by blast
    from n(2) True have "\<forall>j<Suc n. cmatch i k ((c # cs) ! j)"
      by (simp add: nth_Cons split: nat.splits)
    with n(1,3) have "Suc n \<le> length (c # cs) \<and> (\<forall>j<Suc n. cmatch i k ((c # cs) ! j)) \<and>
        rmatch i r (pos + Suc n) (drop (Suc n) (c # cs)) caps = Some x"
      by simp
    then show ?thesis by blast
  next
    case False
    with Cons.prems have "rmatch i r (pos + 0) (drop 0 (c # cs)) caps = Some x"
      by (auto split: if_splits option.splits)
    then have "0 \<le> length (c # cs) \<and> (\<forall>j<0. cmatch i k ((c # cs) ! j)) \<and>
        rmatch i r (pos + 0) (drop 0 (c # cs)) caps = Some x" by simp
    then show ?thesis by blast
  qed
qed

lemma rmatch_Star_complete:
  "n \<le> length s \<Longrightarrow> \<forall>j<n. cmatch i k (s ! j) \<Longrightarrow>
   rmatch i r (pos + n) (drop n s) caps \<noteq> None \<Longrightarrow> rmatch i (Star k # r) pos s caps \<noteq> None"
proof (induction s arbitrary: pos n)
  case Nil
  then show ?case by simp
next
  case (Cons c cs)
  show ?case
  proof (cases n)
    case 0
    with Cons.prems show ?thesis by (auto split: option.splits)
  next
    case (Suc m)
    with Cons.prems have c: "cmatch i k c" and m: "m \<le> length cs" "\<forall>j<m. cmatch i k (cs ! j)"
      "rmatch i r (pos + 1 + m) (drop m cs) caps \<noteq> None"
      by auto
    from Cons.IH [OF m] have "rmatch i (Star k # r) (pos + 1) cs caps \<noteq> None" .
    with c show ?thesis by (auto split: option.splits)
  qed
qed

lemma search_Bol_later: "0 < pos \<Longrightarrow> search i (Bol # r) pos s = None"
  by (induction s arbitrary: pos) auto

lemma match_Bol:
  "match i (Bol # r) s =
     (case rmatch i r 0 s [] of Some (e, caps) \<Rightarrow> Some (0, e, caps) | None \<Rightarrow> None)"
  by (cases s) (auto simp: match_def search_Bol_later split: option.splits)

lemma questionRe_cauRe:
  assumes "match True questionRe line \<noteq> None"
  shows "match True cauRe line \<noteq> None"
proof -
  let ?p = "Suc (Suc (Suc 0))"
  let ?q = "[Open, Plus Digit, Close, Plus (OneOf [Lit 46, Space, Lit 58]), Open, Star Dot, Close, Eol]"
  from assms obtain c1 c2 c3 rest where line: "line = c1 # c2 # c3 # rest"
    and c: "cmatch True (Lit 67) c1" "cmatch True (Lit 226) c2" "cmatch True (Lit 117) c3"
    and q: "rmatch True (Star Space # ?q) ?p rest [] \<noteq> None"
    unfolding questionRe_def match_Bol
    by (cases line; cases "tl line"; cases "tl (tl line)") (auto split: if_splits option.splits)
  from q obtain x where "rmatch True (Star Space # ?q) ?p rest [] = Some x" by blast
  from rmatch_Star_sound [OF this] obtain n where n: "n \<le> length rest"
    "\<forall>j<n. cmatch True Space (rest ! j)" "rmatch True ?q (?p + n) (drop n rest) [] = Some x"
    by blast
  from n(3) obtain d ds where d: "drop n rest = d # ds" "cmatch True Digit d"
    by (cases "drop n rest") (auto split: if_splits)
  have "rmatch True [Plus Digit] (?p + n) (drop n rest) [] \<noteq> None"
    using d rmatch_Star_only [of True Digit "?p + n + 1" ds "[]"] by simp
  from rmatch_Star_complete [OF n(1,2) this]
  have "rmatch True [Star Space, Plus Digit] ?p rest [] \<noteq> None" .
  with c show ?thesis
    unfolding cauRe_def match_Bol line by (auto split: option.splits)
qed

subsection \<open>Facts about the loop body\<close>

text \<open>
  A question-start line pushes the question in progress and starts a new one; any other
  line leaves the pushed questions alone and changes at most the question in progress.
\<close>

lemma parseLine_start:
  assumes "isQuestionStartLine p"
  shows "\<exists>index e caps.
           match True questionRe (trim (p_text p)) = Some (index, e, caps) \<and>
           parseLine st p =
             st\<lparr> inReading := False,
                 out_questions := pushCurrent st,
                 currentQuestion :=
                   Some (extractOptionsWithUnderline p (newQuestion st (trim (p_text p)) caps)) \<rparr>"
proof -
  let ?line = "trim (p_text p)"
  from assms obtain index e caps where m: "match True questionRe ?line = Some (index, e, caps)"
    unfolding isQuestionStartLine_def by auto
  then have "match True cauRe ?line \<noteq> None"
    using questionRe_cauRe [of ?line] by simp
  then obtain cm where c: "match True cauRe ?line = Some cm" by blast
  from assms have a: "?line \<noteq> []" "match True sectionRe ?line = None"
    "\<not> (match True partRe ?line \<noteq> None \<and> hasPartKeyword ?line)" "\<not> isReadingStart ?line"
    unfolding isQuestionStartLine_def by blast+
  have "parseLine st p =
          st\<lparr> inReading := False,
              out_questions := pushCurrent st,
              currentQuestion :=
                Some (extractOptionsWithUnderline p (newQuestion st ?line caps)) \<rparr>"
    unfolding parseLine_def Let_def using a
    by (auto simp: m c pushCurrent_def newQuestion_def split: option.splits)
  with m show ?thesis by blast
qed

lemma parseLine_other:
  assumes "\<not> isQuestionStartLine p"
  shows "out_questions (parseLine st p) = out_questions st \<and>
         (currentQuestion (parseLine st p) = currentQuestion st \<or>
          (\<exists>q. currentQuestion st = Some q \<and>
               currentQuestion (parseLine st p) = Some (questionLine p (trim (p_text p)) q)))"
proof (cases "match True questionRe (trim (p_text p))")
  case None
  then show ?thesis
    unfolding parseLine_def Let_def
    by (auto split: option.splits)
next
  case (Some m)
  let ?line = "trim (p_text p)"
  from Some have "match True cauRe ?line \<noteq> None"
    using questionRe_cauRe [of ?line] by simp
  then obtain cm where c: "match True cauRe ?line = Some cm" by blast
  from Some assms have
    "?line = [] \<or> match True sectionRe ?line \<noteq> None \<or>
     (match True partRe ?line \<noteq> None \<and> hasPartKeyword ?line) \<or> isReadingStart ?line"
    unfolding isQuestionStartLine_def by auto
  then show ?thesis
    unfolding parseLine_def Let_def
    by (auto simp: c split: option.splits)
qed

lemma extract_fields [simp]:
  "number (extractOptionsWithUnderline p q) = number q"
  "passage (extractOptionsWithUnderline p q) = passage q"
  "correctAnswer (extractOptionsWithUnderline p q) = correctAnswer q"
  by (simp_all add: extractOptionsWithUnderline_def Let_def split: list.splits)

lemma questionLine_fields [simp]:
  "number (questionLine p line q) = number q"
  "passage (questionLine p line q) = passage q"
  by (simp_all add: questionLine_def Let_def split: option.splits)

lemma finalizeQuestion_fields [simp]:
  "number (finalizeQuestion q) = number q"
  "passage (finalizeQuestion q) = passage q"
  "options (finalizeQuestion q) = options q"
  "correctAnswer (finalizeQuestion q) = correctAnswer q"
  by (simp_all add: finalizeQuestion_def)

lemma newQuestion_fields [simp]:
  "passage (newQuestion st line caps) = readingPassage st"
  "number (newQuestion st line caps) = parseInt (captured line caps 0)"
  "options (newQuestion st line caps) = []"
  "correctAnswer (newQuestion st line caps) = None"
  "q_type (newQuestion st line caps) = unknown"
  by (simp_all add: newQuestion_def)

lemma pushCurrent_parseLine_other:
  assumes "\<not> isQuestionStartLine p"
  shows "pushCurrent (parseLine st p) = pushCurrent st \<or>
         (\<exists>q. currentQuestion st = Some q \<and>
              pushCurrent st = out_questions st @ [finalizeQuestion q] \<and>
              pushCurrent (parseLine st p) =
                out_questions st @ [finalizeQuestion (questionLine p (trim (p_text p)) q)])"
proof -
  from parseLine_other [OF assms, of st] have
    o: "out_questions (parseLine st p) = out_questions st" and
    c: "currentQuestion (parseLine st p) = currentQuestion st \<or>
        (\<exists>q. currentQuestion st = Some q \<and>
             currentQuestion (parseLine st p) = Some (questionLine p (trim (p_text p)) q))"
    by blast+
  from c show ?thesis
  proof
    assume "currentQuestion (parseLine st p) = currentQuestion st"
    with o have "pushCurrent (parseLine st p) = pushCurrent st"
      by (simp add: pushCurrent_def split: option.splits)
    then show ?thesis ..
  next
    assume "\<exists>q. currentQuestion st = Some q \<and>
             currentQuestion (parseLine st p) = Some (questionLine p (trim (p_text p)) q)"
    then obtain q where "currentQuestion st = Some q"
      "currentQuestion (parseLine st p) = Some (questionLine p (trim (p_text p)) q)" by blast
    with o show ?thesis by (simp add: pushCurrent_def)
  qed
qed

lemma pushCurrent_parseLine_number:
  "map number (pushCurrent (parseLine st p)) =
     map number (pushCurrent st) @ (if isQuestionStartLine p then [lineNumber p] else [])"
proof (cases "isQuestionStartLine p")
  case True
  from parseLine_start [OF True, of st] obtain index e caps where
    m: "match True questionRe (trim (p_text p)) = Some (index, e, caps)" and
    s: "parseLine st p =
          st\<lparr> inReading := False, out_questions := pushCurrent st,
              currentQuestion :=
                Some (extractOptionsWithUnderline p (newQuestion st (trim (p_text p)) caps)) \<rparr>"
    by blast
  from m have "lineNumber p = parseInt (captured (trim (p_text p)) caps 0)"
    by (simp add: lineNumber_def)
  with True show ?thesis
    by (simp add: s pushCurrent_def)
next
  case False
  from pushCurrent_parseLine_other [OF False, of st] show ?thesis
    using False by auto
qed

lemma pushCurrent_parseLine_passage:
  "map passage (pushCurrent (parseLine st p)) =
     map passage (pushCurrent st) @ (if isQuestionStartLine p then [readingPassage st] else [])"
proof (cases "isQuestionStartLine p")
  case True
  from parseLine_start [OF True, of st] obtain index e caps where
    s: "parseLine st p =
          st\<lparr> inReading := False, out_questions := pushCurrent st,
              currentQuestion :=
                Some (extractOptionsWithUnderline p (newQuestion st (trim (p_text p)) caps)) \<rparr>"
    by blast
  with True show ?thesis
    by (simp add: s pushCurrent_def)
next
  case False
  from pushCurrent_parseLine_other [OF False, of st] show ?thesis
    using False by auto
qed

lemma collect_numbers:
  "map number (pushCurrent (foldl parseLine st ps)) =
     map number (pushCurrent st) @ map lineNumber (filter isQuestionStartLine ps)"
  by (induction ps arbitrary: st) (simp_all add: pushCurrent_parseLine_number)

lemma collect_passages:
  "map passage (pushCurrent (foldl parseLine st ps)) =
     map passage (pushCurrent st) @
     map (\<lambda>i. readingPassage (foldl parseLine st (take i ps)))
       (filter (\<lambda>i. isQuestionStartLine (ps ! i)) [0..<length ps])"
proof (induction ps rule: rev_induct)
  case Nil
  then show ?case by simp
next
  case (snoc p ps)
  have f: "filter (\<lambda>i. isQuestionStartLine ((ps @ [p]) ! i)) [0..<length ps] =
           filter (\<lambda>i. isQuestionStartLine (ps ! i)) [0..<length ps]"
    by (rule filter_cong) (simp_all add: nth_append)
  have m: "map (\<lambda>i. readingPassage (foldl parseLine st (take i (ps @ [p]))))
             (filter (\<lambda>i. isQuestionStartLine (ps ! i)) [0..<length ps]) =
           map (\<lambda>i. readingPassage (foldl parseLine st (take i ps)))
             (filter (\<lambda>i. isQuestionStartLine (ps ! i)) [0..<length ps])"
    by (rule map_cong) auto
  show ?case
    by (simp add: pushCurrent_parseLine_passage snoc.IH f m)
qed

lemma markAnswer_fields [simp]:
  "number (fst (markAnswer q ans)) = number q"
  "passage (fst (markAnswer q ans)) = passage q"
  "options (fst (markAnswer q ans)) = options q"
  "q_type (fst (markAnswer q ans)) = q_type q"
  by (simp_all add: markAnswer_def split: option.splits)

lemma markAnswers_fields:
  "map number (fst (markAnswers qs ans)) = map number qs"
  "map passage (fst (markAnswers qs ans)) = map passage qs"
  "map options (fst (markAnswers qs ans)) = map options qs"
  "map q_type (fst (markAnswers qs ans)) = map q_type qs"
  by (induction qs arbitrary: ans; simp add: case_prod_beta)+

subsection \<open>The list of questions\<close>

lemma sort_key_map_pair:
  "map f (sort_key (\<lambda>x. g (f x)) xs) = sort_key g (map f xs)"
proof (induction xs)
  case Nil
  then show ?case by simp
next
  case (Cons x xs)
  have "map f (insort_key (\<lambda>x. g (f x)) x ys) = insort_key g (f x) (map f ys)" for ys
    by (induction ys) simp_all
  with Cons show ?case by simp
qed

lemma parse_questions:
  "parseQuestionsFromParagraphs ps e = Some r \<Longrightarrow>
     questions r = sort_key number (fst (markAnswers (collectQuestions ps (questions e)) (answers e)))"
  by (auto simp: parseQuestionsFromParagraphs_def groupQuestionsIntoSections_total split: prod.splits)

lemma pushCurrent_initialState [simp]: "pushCurrent (initialState qs) = qs"
  by (simp add: pushCurrent_def initialState_def)

subsection \<open>Evaluating the examples\<close>

lemmas eval_defs = optionExecLoop.simps js_def isWhite_def isLineTerminator_def trim_def upperUnit_def lowerUnit_def
  toUpperCase_def toLowerCase_def slice_def substr_def canonicalize_def match_def exec_def
  captured_def lits_def sectionRe_def partRe_def readingRe1_def readingRe2_def cauRe_def
  questionRe_def optionLineRe_def answerRe_def optionRegex_def escapeUnit_def escapeHtml_def
  textPortion_def applyFormatting_def formatRun_def rawFormattedText_def buildFormattedText_def
  endsWithSpace_def overlapsHighlight_def normalizeOptionText_def extractOptionsWithUnderline_def
  parseInt_def finalizeQuestion_def pushCurrent_def hasPartKeyword_def isReadingStart_def
  newQuestion_def questionLine_def parseLine_def initialState_def collectQuestions_def
  markAnswer_def sectionKey_def addToSection_def sectionOf_def buildSectionMap_def
  groupQuestionsIntoSections_def parseQuestionsFromParagraphs_def emptyExamData_def
  plainRun_def plain_def cau_def dapAn_def Let_def

subsection \<open>The order of the questions\<close>

text \<open>
  Claim C6. For every list of paragraphs whose question numbers are exact (at most
  \<open>2^53\<close>, where a JavaScript number is the value of the digits) the parse returns, and
  the returned questions are sorted by ascending number; their numbers are those of the
  question-start lines (after the questions \<open>examData\<close> already held), each as often as it
  occurs, so a duplicate number is neither merged nor dropped; and the questions of one
  number are exactly those of the list before the sort, in the same order.
\<close>

theorem questions_sorted_stable:
  "exactNumbers ps \<Longrightarrow>
   \<exists>r. parseQuestionsFromParagraphs ps e = Some r \<and>
       sorted (map number (questions r)) \<and>
       mset (map number (questions r)) =
         mset (map number (questions e) @ map lineNumber (filter isQuestionStartLine ps)) \<and>
       (\<forall>k. map number (filter (\<lambda>q. number q = k) (questions r)) =
            filter (\<lambda>n. n = k) (map number (questions e) @ map lineNumber (filter isQuestionStartLine ps))) \<and>
       (\<forall>k. filter (\<lambda>q. number q = k) (questions r) =
            filter (\<lambda>q. number q = k)
              (fst (markAnswers (collectQuestions ps (questions e)) (answers e))))"
proof -
  let ?qs = "fst (markAnswers (collectQuestions ps (questions e)) (answers e))"
  obtain r where r: "parseQuestionsFromParagraphs ps e = Some r"
    using parseQuestionsFromParagraphs_total by blast
  then have q: "questions r = sort_key number ?qs" by (rule parse_questions)
  have n: "map number ?qs = map number (questions e) @ map lineNumber (filter isQuestionStartLine ps)"
    by (simp add: markAnswers_fields collectQuestions_def collect_numbers)
  have 1: "sorted (map number (questions r))" by (simp add: q)
  have "mset (map number (questions r)) = mset (map number ?qs)"
    by (simp only: q mset_map mset_sort)
  then have 2: "mset (map number (questions r)) =
      mset (map number (questions e) @ map lineNumber (filter isQuestionStartLine ps))"
    by (simp only: n)
  have 4: "filter (\<lambda>q. number q = k) (questions r) = filter (\<lambda>q. number q = k) ?qs" for k
    by (simp add: q sort_key_stable)
  have 3: "map number (filter (\<lambda>q. number q = k) (questions r)) =
      filter (\<lambda>n. n = k) (map number (questions e) @ map lineNumber (filter isQuestionStartLine ps))" for k
  proof -
    have "map number (filter (\<lambda>q. number q = k) ?qs) = filter (\<lambda>n. n = k) (map number ?qs)"
      by (simp add: filter_map comp_def)
    then show ?thesis by (simp only: 4 n)
  qed
  from r 1 2 3 4 show ?thesis by blast
qed

text \<open>
  Four question lines with the numbers 2, \<open>2^53\<close>, 1 and 2: the numbers are exact, the
  result is sorted, and the two questions numbered 2 keep their order.
\<close>

theorem questions_sorted_stable_witness:
  "exactNumbers
     [plain (cau @ js '' 2. x''), plain (cau @ js '' 9007199254740992. w''),
      plain (cau @ js '' 1. y''), plain (cau @ js '' 2. z'')] \<and>
   (\<exists>r. parseQuestionsFromParagraphs
         [plain (cau @ js '' 2. x''), plain (cau @ js '' 9007199254740992. w''),
          plain (cau @ js '' 1. y''), plain (cau @ js '' 2. z'')]
         emptyExamData = Some r \<and>
       map number (questions r) = [1, 2, 2, 9007199254740992] \<and>
       map q_text (questions r) = [js ''y'', js ''x'', js ''z'', js ''w''])"
proof -
  have h: "exactNumbers
     [plain (cau @ js '' 2. x''), plain (cau @ js '' 9007199254740992. w''),
      plain (cau @ js '' 1. y''), plain (cau @ js '' 2. z'')]"
    by (simp add: exactNumbers_def isQuestionStartLine_def lineNumber_def eval_defs)
  from h questions_sorted_stable [OF h, of emptyExamData] show ?thesis
    by (simp add: eval_defs)
qed

subsection \<open>The reading passage\<close>

lemma readingPassage_parseLine:
  "readingPassage (parseLine st p) = readingPassage st \<or>
   readingPassage (parseLine st p) = readingPassage st @ trim (p_text p) @ [10] \<or>
   (isReadingStart (trim (p_text p)) \<and> readingPassage (parseLine st p) = trim (p_text p) @ [10])"
  unfolding parseLine_def Let_def
  by (simp split: option.splits prod.splits)

lemma readingPassage_stays:
  "readingPassage st \<noteq> [] \<Longrightarrow> readingPassage (foldl parseLine st ps) \<noteq> []"
proof (induction ps arbitrary: st)
  case Nil
  then show ?case by simp
next
  case (Cons p ps)
  from readingPassage_parseLine [of st p] Cons.prems
  have "readingPassage (parseLine st p) \<noteq> []" by auto
  then show ?case using Cons.IH by simp
qed

lemma map_pair_zip: "map (\<lambda>q. (f q, g q)) xs = zip (map f xs) (map g xs)"
  by (induction xs) simp_all

lemma collect_pairs:
  "map (\<lambda>q. (number q, passage q)) (pushCurrent (foldl parseLine st ps)) =
     map (\<lambda>q. (number q, passage q)) (pushCurrent st) @
     map (\<lambda>i. (lineNumber (ps ! i), readingPassage (foldl parseLine st (take i ps))))
       (filter (\<lambda>i. isQuestionStartLine (ps ! i)) [0..<length ps])"
proof -
  let ?is = "filter (\<lambda>i. isQuestionStartLine (ps ! i)) [0..<length ps]"
  have "filter isQuestionStartLine ps = filter isQuestionStartLine (map (nth ps) [0..<length ps])"
    by (simp only: map_nth)
  also have "\<dots> = map (nth ps) ?is"
    by (simp add: filter_map comp_def)
  finally have n: "map lineNumber (filter isQuestionStartLine ps) = map (\<lambda>i. lineNumber (ps ! i)) ?is"
    by simp
  have "map (\<lambda>q. (number q, passage q)) (pushCurrent (foldl parseLine st ps)) =
        zip (map number (pushCurrent (foldl parseLine st ps)))
            (map passage (pushCurrent (foldl parseLine st ps)))"
    by (rule map_pair_zip)
  also have "\<dots> = zip (map number (pushCurrent st) @ map (\<lambda>i. lineNumber (ps ! i)) ?is)
        (map passage (pushCurrent st) @
         map (\<lambda>i. readingPassage (foldl parseLine st (take i ps))) ?is)"
    by (simp only: collect_numbers collect_passages n)
  also have "\<dots> = map (\<lambda>q. (number q, passage q)) (pushCurrent st) @
     map (\<lambda>i. (lineNumber (ps ! i), readingPassage (foldl parseLine st (take i ps)))) ?is"
    by (simp add: map_pair_zip)
  finally show ?thesis .
qed

text \<open>
  The passage text and the open flag of the loop, line by line, and the same for the
  passage block as the specification words it.
\<close>

lemma parseLine_rest:
  "readingPassage
     (case m of
        Some (index, e, caps) \<Rightarrow> st1\<lparr> out_questions := X, currentQuestion := Y caps \<rparr>
      | None \<Rightarrow>
          (case currentQuestion st1 of
             None \<Rightarrow> st1
           | Some q \<Rightarrow> st1\<lparr> currentQuestion := Z q \<rparr>)) = readingPassage st1"
  "inReading
     (case m of
        Some (index, e, caps) \<Rightarrow> st1\<lparr> out_questions := X, currentQuestion := Y caps \<rparr>
      | None \<Rightarrow>
          (case currentQuestion st1 of
             None \<Rightarrow> st1
           | Some q \<Rightarrow> st1\<lparr> currentQuestion := Z q \<rparr>)) = inReading st1"
  by (simp_all split: option.splits prod.splits)

lemma passage_step:
  "readingPassage (parseLine st p) =
     (if roleOf p = PassageStart then trim (p_text p) @ [10]
      else if roleOf p = OtherLine \<and> inReading st then readingPassage st @ trim (p_text p) @ [10]
      else readingPassage st)"
  "inReading (parseLine st p) =
     (if roleOf p = PassageStart then True
      else if roleOf p = QuestionLine then False
      else inReading st)"
proof -
  let ?line = "trim (p_text p)"
  consider (blank) "?line = []"
    | (sec) "?line \<noteq> []" "match True sectionRe ?line \<noteq> None"
    | (part) "?line \<noteq> []" "match True sectionRe ?line = None"
        "match True partRe ?line \<noteq> None \<and> hasPartKeyword ?line"
    | (start) "?line \<noteq> []" "match True sectionRe ?line = None"
        "\<not> (match True partRe ?line \<noteq> None \<and> hasPartKeyword ?line)" "isReadingStart ?line"
    | (question) "?line \<noteq> []" "match True sectionRe ?line = None"
        "\<not> (match True partRe ?line \<noteq> None \<and> hasPartKeyword ?line)" "\<not> isReadingStart ?line"
        "match True cauRe ?line \<noteq> None"
    | (other) "?line \<noteq> []" "match True sectionRe ?line = None"
        "\<not> (match True partRe ?line \<noteq> None \<and> hasPartKeyword ?line)" "\<not> isReadingStart ?line"
        "match True cauRe ?line = None"
    by blast
  then have "readingPassage (parseLine st p) =
     (if roleOf p = PassageStart then trim (p_text p) @ [10]
      else if roleOf p = OtherLine \<and> inReading st then readingPassage st @ trim (p_text p) @ [10]
      else readingPassage st) \<and>
    inReading (parseLine st p) =
     (if roleOf p = PassageStart then True
      else if roleOf p = QuestionLine then False
      else inReading st)"
  proof cases
    case blank
    then show ?thesis by (simp add: parseLine_def roleOf_def)
  next
    case sec
    then obtain m where "match True sectionRe ?line = Some m" by blast
    with sec show ?thesis
      by (simp add: parseLine_def roleOf_def Let_def split: prod.splits)
  next
    case part
    then show ?thesis by (simp add: parseLine_def roleOf_def Let_def)
  next
    case start
    then show ?thesis by (auto simp: parseLine_def roleOf_def Let_def)
  next
    case question
    then obtain m where m: "match True cauRe ?line = Some m" by blast
    have r: "roleOf p = QuestionLine" using question by (auto simp: roleOf_def)
    have "parseLine st p =
        (case match True questionRe ?line of
           Some (index, e, caps) \<Rightarrow>
             (st\<lparr> inReading := False \<rparr>)\<lparr> out_questions := pushCurrent (st\<lparr> inReading := False \<rparr>),
                  currentQuestion :=
                    Some (extractOptionsWithUnderline p (newQuestion (st\<lparr> inReading := False \<rparr>) ?line caps)) \<rparr>
         | None \<Rightarrow>
             (case currentQuestion (st\<lparr> inReading := False \<rparr>) of
                None \<Rightarrow> st\<lparr> inReading := False \<rparr>
              | Some q \<Rightarrow> (st\<lparr> inReading := False \<rparr>)\<lparr> currentQuestion := Some (questionLine p ?line q) \<rparr>))"
      using question(1-4) by (auto simp: parseLine_def Let_def m)
    then show ?thesis by (simp only: parseLine_rest r) simp
  next
    case other
    have r: "roleOf p = OtherLine" using other by (auto simp: roleOf_def)
    show ?thesis
    proof (cases "inReading st")
      case True
      with other r show ?thesis by (auto simp: parseLine_def Let_def)
    next
      case False
      have "parseLine st p =
        (case match True questionRe ?line of
           Some (index, e, caps) \<Rightarrow>
             st\<lparr> out_questions := pushCurrent st,
                  currentQuestion :=
                    Some (extractOptionsWithUnderline p (newQuestion st ?line caps)) \<rparr>
         | None \<Rightarrow>
             (case currentQuestion st of
                None \<Rightarrow> st
              | Some q \<Rightarrow> st\<lparr> currentQuestion := Some (questionLine p ?line q) \<rparr>))"
        using other False by (auto simp: parseLine_def Let_def)
      then show ?thesis using False by (simp only: parseLine_rest r) simp
    qed
  qed
  then show
    "readingPassage (parseLine st p) =
     (if roleOf p = PassageStart then trim (p_text p) @ [10]
      else if roleOf p = OtherLine \<and> inReading st then readingPassage st @ trim (p_text p) @ [10]
      else readingPassage st)"
    "inReading (parseLine st p) =
     (if roleOf p = PassageStart then True
      else if roleOf p = QuestionLine then False
      else inReading st)"
    by blast+
qed

lemma lastStart_snoc:
  "lastStart (ps @ [p]) = (if roleOf p = PassageStart then Some p else lastStart ps)"
  by (simp add: lastStart_def)

lemma lastBlock_snoc:
  "lastBlock (ps @ [p]) = (if roleOf p = PassageStart then [] else lastBlock ps @ [p])"
  by (simp add: lastBlock_def)

lemma blockOpen_snoc:
  "blockOpen (ps @ [p]) =
     (if roleOf p = PassageStart then True
      else if roleOf p = QuestionLine then False
      else blockOpen ps)"
  by (auto simp: blockOpen_def lastStart_snoc lastBlock_snoc list_ex_iff)

lemma passageOf_snoc:
  "passageOf (ps @ [p]) =
     (if roleOf p = PassageStart then trim (p_text p) @ [10]
      else if roleOf p = OtherLine \<and> blockOpen ps then passageOf ps @ trim (p_text p) @ [10]
      else passageOf ps)"
proof (cases "roleOf p = PassageStart")
  case True
  then show ?thesis by (simp add: passageOf_def lastStart_snoc lastBlock_snoc)
next
  case False
  show ?thesis
  proof (cases "lastStart ps")
    case None
    with False show ?thesis
      by (simp add: passageOf_def lastStart_snoc blockOpen_def)
  next
    case (Some start)
    show ?thesis
    proof (cases "\<forall>x\<in>set (lastBlock ps). roleOf x \<noteq> QuestionLine")
      case True
      then have "takeWhile (\<lambda>x. roleOf x \<noteq> QuestionLine) (lastBlock ps @ [p]) =
          lastBlock ps @ takeWhile (\<lambda>x. roleOf x \<noteq> QuestionLine) [p]"
        by (intro takeWhile_append2) simp
      moreover from True have "takeWhile (\<lambda>x. roleOf x \<noteq> QuestionLine) (lastBlock ps) = lastBlock ps"
        by (simp add: takeWhile_eq_all_conv)
      ultimately have "passageOf (ps @ [p]) =
          passageOf ps @ concat (map (\<lambda>p. trim (p_text p) @ [10])
            (filter (\<lambda>p. roleOf p = OtherLine) (takeWhile (\<lambda>x. roleOf x \<noteq> QuestionLine) [p])))"
        using False Some
        by (simp only: passageOf_def lastStart_snoc lastBlock_snoc if_False option.case
              filter_append map_append concat_append list.map filter.simps concat.simps append_assoc)
      moreover have "blockOpen ps" using Some True by (simp add: blockOpen_def list_ex_iff)
      ultimately show ?thesis using False by simp
    next
      case f: False
      then obtain x where "x \<in> set (lastBlock ps)" "\<not> roleOf x \<noteq> QuestionLine" by blast
      then have "takeWhile (\<lambda>x. roleOf x \<noteq> QuestionLine) (lastBlock ps @ [p]) =
          takeWhile (\<lambda>x. roleOf x \<noteq> QuestionLine) (lastBlock ps)"
        by (rule takeWhile_append1)
      then show ?thesis using False Some f
        by (simp add: passageOf_def lastStart_snoc lastBlock_snoc blockOpen_def list_ex_iff)
    qed
  qed
qed

lemma passage_state:
  "readingPassage (foldl parseLine (initialState qs) ps) = passageOf ps \<and>
   inReading (foldl parseLine (initialState qs) ps) = blockOpen ps"
proof (induction ps rule: rev_induct)
  case Nil
  then show ?case
    by (simp add: initialState_def passageOf_def blockOpen_def lastStart_def)
next
  case (snoc p ps)
  then show ?case
    by (simp add: passage_step passageOf_snoc blockOpen_snoc)
qed

lemma passageOf_stays: "passageOf ps \<noteq> [] \<Longrightarrow> passageOf (ps @ later) \<noteq> []"
  using readingPassage_stays [of "foldl parseLine (initialState []) ps" later]
    passage_state [of "[]" ps] passage_state [of "[]" "ps @ later"]
  by simp

text \<open>
  Claim C10. A passage-start line replaces the accumulated text by its own line and opens
  the block; while the block is open every other line is appended; a line that begins
  like a question closes the block; and no other line changes the text, so it is never
  reset to empty. The text of the loop is that of the passage block in force, which once
  not empty stays so. Every question carries the text of the block in force before its
  start line, whatever lay between the passage and that line and until a later
  passage-start line has replaced it: so in the order in which the questions start and,
  for exact question numbers, as pairs of number and passage in the returned list.
\<close>

theorem passage_carried:
  "(roleOf p = PassageStart \<longrightarrow>
      readingPassage (parseLine st p) = trim (p_text p) @ [10] \<and> inReading (parseLine st p)) \<and>
   (roleOf p = OtherLine \<and> inReading st \<longrightarrow>
      readingPassage (parseLine st p) = readingPassage st @ trim (p_text p) @ [10] \<and>
      inReading (parseLine st p)) \<and>
   (roleOf p \<noteq> PassageStart \<and> \<not> (roleOf p = OtherLine \<and> inReading st) \<longrightarrow>
      readingPassage (parseLine st p) = readingPassage st) \<and>
   (roleOf p = QuestionLine \<longrightarrow> \<not> inReading (parseLine st p)) \<and>
   readingPassage (foldl parseLine (initialState qs) ps) = passageOf ps \<and>
   (passageOf ps \<noteq> [] \<longrightarrow> passageOf (ps @ later) \<noteq> []) \<and>
   map passage (collectQuestions ps qs) =
     map passage qs @
     map (\<lambda>i. passageOf (take i ps))
       (filter (\<lambda>i. isQuestionStartLine (ps ! i)) [0..<length ps]) \<and>
   (exactNumbers ps \<longrightarrow>
      (\<exists>r. parseQuestionsFromParagraphs ps e = Some r \<and>
         map (\<lambda>q. (number q, passage q)) (questions r) =
           sort_key fst
             (map (\<lambda>q. (number q, passage q)) (questions e) @
              map (\<lambda>i. (lineNumber (ps ! i), passageOf (take i ps)))
                (filter (\<lambda>i. isQuestionStartLine (ps ! i)) [0..<length ps]))))"
proof -
  let ?f = "\<lambda>q. (number q, passage q)"
  let ?qs = "fst (markAnswers (collectQuestions ps (questions e)) (answers e))"
  let ?is = "filter (\<lambda>i. isQuestionStartLine (ps ! i)) [0..<length ps]"
  have s: "readingPassage (foldl parseLine (initialState xs) (take i ps)) = passageOf (take i ps)"
    for xs i
    using passage_state [of xs "take i ps"] by simp
  have 1: "roleOf p = PassageStart \<longrightarrow>
      readingPassage (parseLine st p) = trim (p_text p) @ [10] \<and> inReading (parseLine st p)"
    by (simp add: passage_step)
  have 2: "roleOf p = OtherLine \<and> inReading st \<longrightarrow>
      readingPassage (parseLine st p) = readingPassage st @ trim (p_text p) @ [10] \<and>
      inReading (parseLine st p)"
    by (simp add: passage_step)
  have 3: "roleOf p \<noteq> PassageStart \<and> \<not> (roleOf p = OtherLine \<and> inReading st) \<longrightarrow>
      readingPassage (parseLine st p) = readingPassage st"
    by (auto simp: passage_step)
  have 4: "roleOf p = QuestionLine \<longrightarrow> \<not> inReading (parseLine st p)"
    by (simp add: passage_step)
  have 5: "readingPassage (foldl parseLine (initialState qs) ps) = passageOf ps"
    using passage_state [of qs ps] by simp
  have 6: "passageOf ps \<noteq> [] \<longrightarrow> passageOf (ps @ later) \<noteq> []"
    using passageOf_stays by blast
  have 7: "map passage (collectQuestions ps qs) =
      map passage qs @ map (\<lambda>i. passageOf (take i ps)) ?is"
    by (simp add: collectQuestions_def collect_passages s)
  obtain r where r: "parseQuestionsFromParagraphs ps e = Some r"
    using parseQuestionsFromParagraphs_total by blast
  then have "questions r = sort_key (\<lambda>q. fst (?f q)) ?qs"
    by (simp add: parse_questions)
  then have "map ?f (questions r) = sort_key fst (map ?f ?qs)"
    using sort_key_map_pair [of ?f fst ?qs] by simp
  moreover have "map ?f ?qs = map ?f (collectQuestions ps (questions e))"
    by (simp only: map_pair_zip markAnswers_fields)
  ultimately have "map ?f (questions r) =
      sort_key fst
        (map ?f (questions e) @ map (\<lambda>i. (lineNumber (ps ! i), passageOf (take i ps))) ?is)"
    by (simp add: collectQuestions_def collect_pairs s)
  with r have 8: "exactNumbers ps \<longrightarrow>
      (\<exists>r. parseQuestionsFromParagraphs ps e = Some r \<and>
         map ?f (questions r) =
           sort_key fst
             (map ?f (questions e) @
              map (\<lambda>i. (lineNumber (ps ! i), passageOf (take i ps))) ?is))"
    by blast
  show ?thesis
    by (intro conjI) (rule 1, rule 2, rule 3, rule 4, rule 5, rule 6, rule 7, rule 8)
qed

text \<open>
  Two passage blocks. Question 1 follows the first block; question 2 starts after a
  stray line and a section header and still carries the first block's text; the second
  title replaces the text, and question 3 carries the second block's text only.
\<close>

theorem passage_carried_witness:
  "exactNumbers
     [plain (js ''A surprising gift''), plain (js ''Once upon a time.''),
      plain (cau @ js '' 1. What?''), plain (js ''a stray line''),
      plain (js ''SECTION B. WRITING: 2 POINTS''), plain (cau @ js '' 2. Rewrite.''),
      plain (js ''Stewart the Dragon''), plain (js ''He was green.''),
      plain (cau @ js '' 3. Who?'')] \<and>
   roleOf (plain (js ''Stewart the Dragon'')) = PassageStart \<and>
   readingPassage (parseLine (initialState []) (plain (js ''Stewart the Dragon''))) =
     js ''Stewart the Dragon'' @ [10] \<and>
   (\<exists>r. parseQuestionsFromParagraphs
         [plain (js ''A surprising gift''), plain (js ''Once upon a time.''),
          plain (cau @ js '' 1. What?''), plain (js ''a stray line''),
          plain (js ''SECTION B. WRITING: 2 POINTS''), plain (cau @ js '' 2. Rewrite.''),
          plain (js ''Stewart the Dragon''), plain (js ''He was green.''),
          plain (cau @ js '' 3. Who?'')]
         emptyExamData = Some r \<and>
       map (\<lambda>q. (number q, passage q)) (questions r) =
         [(1, js ''A surprising gift'' @ [10] @ js ''Once upon a time.'' @ [10]),
          (2, js ''A surprising gift'' @ [10] @ js ''Once upon a time.'' @ [10]),
          (3, js ''Stewart the Dragon'' @ [10] @ js ''He was green.'' @ [10])])"
proof -
  have h: "exactNumbers
     [plain (js ''A surprising gift''), plain (js ''Once upon a time.''),
      plain (cau @ js '' 1. What?''), plain (js ''a stray line''),
      plain (js ''SECTION B. WRITING: 2 POINTS''), plain (cau @ js '' 2. Rewrite.''),
      plain (js ''Stewart the Dragon''), plain (js ''He was green.''),
      plain (cau @ js '' 3. Who?'')]"
    by (simp add: exactNumbers_def isQuestionStartLine_def lineNumber_def eval_defs)
  from h passage_carried
    [of "plain (js ''Stewart the Dragon'')"
        "initialState []"
        "[]"
        "[plain (js ''A surprising gift''), plain (js ''Once upon a time.''),
          plain (cau @ js '' 1. What?''), plain (js ''a stray line''),
          plain (js ''SECTION B. WRITING: 2 POINTS''), plain (cau @ js '' 2. Rewrite.''),
          plain (js ''Stewart the Dragon''), plain (js ''He was green.''),
          plain (cau @ js '' 3. Who?'')]"
        "[]" emptyExamData]
  show ?thesis
    by (simp add: eval_defs roleOf_def)
qed

subsection \<open>The answers mapping\<close>













subsection \<open>The scenario\<close>

text \<open>
  Claim C1, as stated, fails: on the three paragraphs of the scenario the answer line
  makes the question free-response and \<open>...\<close> its correct answer.
\<close>

theorem scenario_counterexample:
  "parseQuestionsFromParagraphs scenario emptyExamData \<noteq> None \<and>
   map q_type (questions (the (parseQuestionsFromParagraphs scenario emptyExamData))) = [writing] \<and>
   map correctAnswer (questions (the (parseQuestionsFromParagraphs scenario emptyExamData))) =
     [Some (js ''...'')]"
  by (simp add: eval_defs scenarioQuestion_def scenario_def)

text \<open>
  Claim C1, as amended. The scenario gives exactly one question, number 1, with the two
  options \<open>A\<close> = cat and \<open>B\<close> = dog, the second flagged as the highlighted one; the answer
  line makes its type free-response and its correct answer the text after the colon, and
  the answers mapping has no entry. Without the answer line the question is
  multiple-choice, its correct answer is \<open>B\<close> and the mapping holds \<open>B\<close> for 1.
\<close>

theorem scenario_result:
  "\<exists>r. parseQuestionsFromParagraphs scenario emptyExamData = Some r \<and>
       map number (questions r) = [1] \<and>
       map q_type (questions r) = [writing] \<and>
       map (\<lambda>q. map (\<lambda>opt. (letter opt, opt_text opt, isCorrect opt)) (options q)) (questions r) =
         [[(js ''A'', js ''cat'', False), (js ''B'', js ''dog'', True)]] \<and>
       map correctAnswer (questions r) = [Some (js ''...'')] \<and>
       answers r 1 = None \<and>
       (\<exists>r'. parseQuestionsFromParagraphs (butlast scenario) emptyExamData = Some r' \<and>
          map number (questions r') = [1] \<and>
          map q_type (questions r') = [multiple_choice] \<and>
          map correctAnswer (questions r') = [Some (js ''B'')] \<and>
          answers r' 1 = Some (js ''B''))"
  by (simp add: eval_defs scenarioQuestion_def scenario_def)

theorem scenario_result_witness:
  "\<exists>r. parseQuestionsFromParagraphs scenario emptyExamData = Some r \<and> length (questions r) = 1"
  using scenario_result by auto

subsection \<open>The bold flag\<close>

lemma boldOf_spec:
  "(case runProps run of None \<Rightarrow> False | Some rPr \<Rightarrow> boldOf rPr) = boldBySpec (js ''0'') run"
  by (auto simp: boldBySpec_def boldProperty_def boldOf_def js_def split: option.splits)

lemma paragraphRuns_bold:
  "map hasBold (paragraphRuns rs pos) =
     map (boldBySpec (js ''0'')) (filter (\<lambda>run. runText run \<noteq> []) rs)"
  by (induction rs arbitrary: pos) (simp_all add: boldOf_spec)

lemmas dom_defs = js_def isWhite_def trim_def getElementsByTagName_def runText_def runProps_def
  highlightOf_def underlineOf_def boldOf_def paragraphDataOf_def allParagraphData_def
  upperUnit_def lowerUnit_def toUpperCase_def toLowerCase_def Let_def

text \<open>
  Claim C4, as amended. Every extracted paragraph comes from a \<open>w:p\<close> element, its runs from
  the \<open>w:r\<close> elements below it that have text, in order, and the bold flag of a run is set
  exactly when a bold property is present and its \<open>w:val\<close> is absent or not \<open>0\<close>. The value
  \<open>false\<close> counts as bold.
\<close>

theorem bold_flag:
  "\<forall>pd\<in>set (allParagraphData xmlDoc).
     \<exists>p\<in>set (docGetElementsByTagName xmlDoc (js ''w:p'')).
       pd = paragraphDataOf p \<and>
       map hasBold (runs pd) =
         map (boldBySpec (js ''0''))
           (filter (\<lambda>run. runText run \<noteq> []) (getElementsByTagName p (js ''w:r'')))"
proof
  fix pd assume "pd \<in> set (allParagraphData xmlDoc)"
  then obtain p where p: "p \<in> set (docGetElementsByTagName xmlDoc (js ''w:p''))" "pd = paragraphDataOf p"
    by (auto simp: allParagraphData_def)
  have "map hasBold (runs (paragraphDataOf p)) =
      map (boldBySpec (js ''0''))
        (filter (\<lambda>run. runText run \<noteq> []) (getElementsByTagName p (js ''w:r'')))"
    by (simp add: paragraphDataOf_def Let_def paragraphRuns_bold)
  with p show "\<exists>p\<in>set (docGetElementsByTagName xmlDoc (js ''w:p'')).
       pd = paragraphDataOf p \<and>
       map hasBold (runs pd) =
         map (boldBySpec (js ''0''))
           (filter (\<lambda>run. runText run \<noteq> []) (getElementsByTagName p (js ''w:r'')))"
    by blast
qed

theorem bold_flag_witness:
  "map (map hasBold) (map runs (allParagraphData boldDocument)) = [[True, False, True, False]]"
  using bold_flag [of boldDocument]
  by (simp add: dom_defs runElement_def boldElement_def boldDocument_def boldBySpec_def boldProperty_def)

text \<open>
  The claim as stated reads the sentinel as \<open>false\<close>. The four runs with text of the example
  have a bold property with the values \<open>false\<close> and \<open>0\<close>, one without a value, and none:
  the code marks the first and the third bold, the claim the second and the third.
\<close>

theorem bold_flag_counterexample:
  "map (map hasBold) (map runs (allParagraphData boldDocument)) = [[True, False, True, False]] \<and>
   map (boldBySpec (js ''false''))
     [runElement [boldElement [(js ''w:val'', js ''false'')]] (js ''a''),
      runElement [boldElement [(js ''w:val'', js ''0'')]] (js ''b''),
      runElement [boldElement []] (js ''c''),
      runElement [] (js ''d'')] = [False, True, True, False]"
  by (simp add: dom_defs runElement_def boldElement_def boldDocument_def boldBySpec_def boldProperty_def)

subsection \<open>Text that is not well-formed XML\<close>

lemmas word_defs = parseWordToExam_def parseDocumentXML_def dom_defs eval_defs

text \<open>
  Claim C3, as amended. Once the archive holds a body entry that is not empty, the parse
  operation returns an ExamData whatever \<open>DOMParser\<close> made of the text: the data extracted
  from the document it returned. \<open>parseWordToExam\<close> has no test for a parser error.
\<close>

theorem malformed_xml_returns:
  "loadAsync file = Some archive \<Longrightarrow> archive (js ''word/document.xml'') = Some documentXml \<Longrightarrow>
   documentXml \<noteq> [] \<Longrightarrow>
   \<exists>examData. parseWordToExam loadAsync parseFromString file = Inr examData \<and>
              parseDocumentXML (parseFromString documentXml) = Some examData"
  using parseQuestionsFromParagraphs_total [of "allParagraphData (parseFromString documentXml)" emptyExamData]
  by (auto simp: parseWordToExam_def parseDocumentXML_def)

theorem malformed_xml_returns_witness:
  "parseWordToExam brokenArchive domParserOnError () = Inr emptyExamData"
  using malformed_xml_returns [of brokenArchive "()" "[js ''word/document.xml'' \<mapsto> js ''<w:document><w:p>'']"
      "js ''<w:document><w:p>''" domParserOnError]
  by (simp add: word_defs brokenArchive_def domParserOnError_def parserErrorDocument_def)

text \<open>
  The claim as stated fails: for a body entry that is not well-formed, where \<open>DOMParser\<close>
  returns its error document, the operation succeeds with the empty ExamData.
\<close>

theorem malformed_xml_counterexample:
  "parseWordToExam brokenArchive domParserOnError () = Inr emptyExamData \<and>
   questions emptyExamData = [] \<and> sections emptyExamData = []"
  by (simp add: word_defs brokenArchive_def domParserOnError_def parserErrorDocument_def)

subsection \<open>The sections\<close>

lemma firstSeen_snoc:
  "firstSeen (ks @ [k]) = (if k \<in> set ks then firstSeen ks else firstSeen ks @ [k])"
  by (simp add: firstSeen_def)

lemma set_firstSeen [simp]: "set (firstSeen ks) = set ks"
  by (simp add: firstSeen_def)

lemma distinct_firstSeen [simp]: "distinct (firstSeen ks)"
  by (simp add: firstSeen_def)

lemma map_of_keyed: "map_of (map (\<lambda>k. (k, f k)) ks) k = (if k \<in> set ks then Some (f k) else None)"
  by (induction ks) auto

lemma mapSet_keyed_new:
  "k \<notin> set ks \<Longrightarrow> mapSet (map (\<lambda>k. (k, f k)) ks) k v = map (\<lambda>k. (k, f k)) ks @ [(k, v)]"
  by (induction ks) auto

lemma mapSet_keyed_old:
  "k \<in> set ks \<Longrightarrow> distinct ks \<Longrightarrow>
   mapSet (map (\<lambda>k. (k, f k)) ks) k v = map (\<lambda>k'. (k', if k' = k then v else f k')) ks"
  by (induction ks) auto

lemma buildSectionMap_groups:
  "buildSectionMap qs =
     map (\<lambda>k. (k, filter (\<lambda>q. sectionKey q = k) qs)) (firstSeen (map sectionKey qs))"
proof (induction qs rule: rev_induct)
  case Nil
  then show ?case by (simp add: buildSectionMap_def firstSeen_def)
next
  case (snoc q qs)
  let ?ks = "firstSeen (map sectionKey qs)"
  let ?f = "\<lambda>k. filter (\<lambda>q. sectionKey q = k) qs"
  have step: "buildSectionMap (qs @ [q]) = addToSection (map (\<lambda>k. (k, ?f k)) ?ks) q"
    using snoc.IH by (simp add: buildSectionMap_def)
  show ?case
  proof (cases "sectionKey q \<in> set (map sectionKey qs)")
    case True
    then have "addToSection (map (\<lambda>k. (k, ?f k)) ?ks) q =
        map (\<lambda>k'. (k', if k' = sectionKey q then ?f (sectionKey q) @ [q] else ?f k')) ?ks"
      by (simp add: addToSection_eq map_of_keyed mapSet_keyed_old)
    also have "\<dots> = map (\<lambda>k. (k, filter (\<lambda>x. sectionKey x = k) (qs @ [q]))) ?ks"
      by (rule map_cong) auto
    finally show ?thesis using True by (simp add: step firstSeen_snoc)
  next
    case False
    then have a: "addToSection (map (\<lambda>k. (k, ?f k)) ?ks) q = map (\<lambda>k. (k, ?f k)) ?ks @ [(sectionKey q, [q])]"
      by (simp add: addToSection_eq map_of_keyed mapSet_keyed_new)
    have b: "map (\<lambda>k. (k, ?f k)) ?ks = map (\<lambda>k. (k, filter (\<lambda>x. sectionKey x = k) (qs @ [q]))) ?ks"
      using False by (intro map_cong) auto
    have c: "filter (\<lambda>x. sectionKey x = sectionKey q) (qs @ [q]) = [q]"
      using False by (force simp: filter_empty_conv image_iff)
    have "buildSectionMap (qs @ [q]) = map (\<lambda>k. (k, ?f k)) ?ks @ [(sectionKey q, [q])]"
      by (simp only: step a)
    also have "\<dots> =
        map (\<lambda>k. (k, filter (\<lambda>x. sectionKey x = k) (qs @ [q]))) ?ks @
        [(sectionKey q, filter (\<lambda>x. sectionKey x = sectionKey q) (qs @ [q]))]"
      by (simp only: b [symmetric] c)
    finally have "buildSectionMap (qs @ [q]) =
        map (\<lambda>k. (k, filter (\<lambda>x. sectionKey x = k) (qs @ [q]))) ?ks @
        [(sectionKey q, filter (\<lambda>x. sectionKey x = sectionKey q) (qs @ [q]))]" .
    then show ?thesis using False by (simp add: firstSeen_snoc)
  qed
qed

text \<open>
  Claim C5, as amended. The sections the parse adds are, in the order in which the keys
  are first seen in the sorted question list, one section for each key, and a section's
  questions are all the questions of the sorted list with its key, in list order, adjacent
  or not. The keys are pairwise distinct: two blocks with the same key that are not
  adjacent go into one section.
\<close>

theorem sections_group_by_key:
  "\<exists>r. parseQuestionsFromParagraphs ps e = Some r \<and>
       map s_questions (drop (length (sections e)) (sections r)) =
         map (\<lambda>k. filter (\<lambda>q. sectionKey q = k) (questions r))
           (firstSeen (map sectionKey (questions r))) \<and>
       distinct (firstSeen (map sectionKey (questions r))) \<and>
       (\<forall>s\<in>set (drop (length (sections e)) (sections r)).
          \<exists>k\<in>set (map sectionKey (questions r)).
            s_questions s = filter (\<lambda>q. sectionKey q = k) (questions r) \<and> s_questions s \<noteq> [])"
proof -
  obtain r where r: "parseQuestionsFromParagraphs ps e = Some r"
    using parseQuestionsFromParagraphs_total by blast
  let ?qs = "questions r"
  let ?ks = "firstSeen (map sectionKey ?qs)"
  from r have "sections r = sections e @ map (\<lambda>e. the (sectionOf e)) (buildSectionMap ?qs)"
    by (auto simp: parseQuestionsFromParagraphs_def groupQuestionsIntoSections_total split: prod.splits)
  then have d: "drop (length (sections e)) (sections r) =
      map (\<lambda>k. the (sectionOf (k, filter (\<lambda>q. sectionKey q = k) ?qs))) ?ks"
    by (simp add: buildSectionMap_groups comp_def)
  have ne: "filter (\<lambda>q. sectionKey q = k) ?qs \<noteq> []" if "k \<in> set ?ks" for k
    using that by (auto simp: filter_empty_conv)
  have sq: "s_questions (the (sectionOf (k, filter (\<lambda>q. sectionKey q = k) ?qs))) =
      filter (\<lambda>q. sectionKey q = k) ?qs" if "k \<in> set ?ks" for k
    using ne [OF that] by (cases "filter (\<lambda>q. sectionKey q = k) ?qs") (simp_all add: sectionOf_def)
  have 1: "map s_questions (drop (length (sections e)) (sections r)) =
      map (\<lambda>k. filter (\<lambda>q. sectionKey q = k) ?qs) ?ks"
    unfolding d map_map by (rule map_cong) (simp_all add: sq)
  have 3: "\<forall>s\<in>set (drop (length (sections e)) (sections r)).
      \<exists>k\<in>set (map sectionKey ?qs).
        s_questions s = filter (\<lambda>q. sectionKey q = k) ?qs \<and> s_questions s \<noteq> []"
    unfolding d using sq ne by auto
  from r 1 3 show ?thesis by simp
qed

theorem sections_group_by_key_witness:
  "\<exists>r. parseQuestionsFromParagraphs interleaved emptyExamData = Some r \<and>
       map number (questions r) = [1, 2, 3] \<and>
       map (map number) (map s_questions (sections r)) = [[1, 3], [2]]"
  using sections_group_by_key [of interleaved emptyExamData]
  by (simp add: eval_defs interleaved_def)

text \<open>
  The claim as stated fails: for questions 1, 2, 3 under the headers A, B, A the first
  section holds the questions 1 and 3, which are not a contiguous block of the sorted
  list, and there are two sections, not three.
\<close>

theorem sections_contiguous_counterexample:
  "parseQuestionsFromParagraphs interleaved emptyExamData \<noteq> None \<and>
   map number (questions (the (parseQuestionsFromParagraphs interleaved emptyExamData))) = [1, 2, 3] \<and>
   map sectionKey (questions (the (parseQuestionsFromParagraphs interleaved emptyExamData))) =
     [js ''A-GRAMMAR'', js ''B-WRITING'', js ''A-GRAMMAR''] \<and>
   map (map number) (map s_questions
     (sections (the (parseQuestionsFromParagraphs interleaved emptyExamData)))) = [[1, 3], [2]]"
  by (simp add: eval_defs interleaved_def)

subsection \<open>The options of a question\<close>

text \<open>
  Every match of the option pattern starts with one of the letters \<open>A\<close> to \<open>D\<close>, takes at
  least two code units and ends inside the line: the loop over the matches is the loop
  of the source.
\<close>

lemma rmatch_Star_end:
  "rmatch i [Star k] pos s caps = Some (pos + length (takeWhile (cmatch i k) s), caps)"
  by (induction s arbitrary: pos) simp_all

lemma cmatch_Space: "cmatch i Space = isWhite"
  by (rule ext) simp

lemma rmatch_optionRegex:
  "rmatch False optionRegex pos s [] = Some (e, caps) \<Longrightarrow>
     (\<exists>c d rest. s = c # d # rest \<and> 65 \<le> c \<and> c \<le> 68 \<and>
        e = pos + 2 + length (takeWhile isWhite rest) \<and> caps = [(pos, pos + 1)])"
  by (cases s; cases "tl s")
    (auto simp: optionRegex_def rmatch_Star_end cmatch_Space split: if_splits)

lemma search_optionRegex:
  "search False optionRegex pos s = Some (index, e, caps) \<Longrightarrow>
     pos \<le> index \<and> index < pos + length s \<and> index + 2 \<le> e \<and> e \<le> pos + length s \<and>
     caps = [(index, index + 1)] \<and> 65 \<le> s ! (index - pos) \<and> s ! (index - pos) \<le> 68"
proof (induction s arbitrary: pos)
  case Nil
  then show ?case by (auto simp: optionRegex_def split: option.splits)
next
  case (Cons c cs)
  show ?case
  proof (cases "rmatch False optionRegex pos (c # cs) []")
    case None
    with Cons.prems have "search False optionRegex (pos + 1) cs = Some (index, e, caps)" by simp
    from Cons.IH [OF this] have ih: "pos + 1 \<le> index" "index < pos + 1 + length cs" "index + 2 \<le> e"
      "e \<le> pos + 1 + length cs" "caps = [(index, index + 1)]"
      "65 \<le> cs ! (index - (pos + 1))" "cs ! (index - (pos + 1)) \<le> 68"
      by blast+
    from ih(1) have "(c # cs) ! (index - pos) = cs ! (index - (pos + 1))"
      by (simp add: nth_Cons')
    with ih show ?thesis by simp
  next
    case (Some x)
    with Cons.prems have x: "index = pos"
      and m: "rmatch False optionRegex pos (c # cs) [] = Some (e, caps)"
      by (auto split: prod.splits)
    from rmatch_optionRegex [OF m] obtain d rest where
      "cs = d # rest" "65 \<le> c" "c \<le> 68" "e = pos + 2 + length (takeWhile isWhite rest)"
      "caps = [(pos, pos + 1)]" by auto
    moreover have "length (takeWhile isWhite rest) \<le> length rest" by (rule length_takeWhile_le)
    ultimately show ?thesis using x by auto
  qed
qed

lemma exec_optionRegex:
  assumes "exec False optionRegex line lastIndex = Some (index, e, caps)"
  shows "lastIndex < e \<and> e \<le> length line \<and>
         toUpperCase (captured line caps 0) \<in> {js ''A'', js ''B'', js ''C'', js ''D''}"
proof -
  from assms have l: "lastIndex \<le> length line"
    and s: "search False optionRegex lastIndex (drop lastIndex line) = Some (index, e, caps)"
    by (auto simp: exec_def split: if_splits)
  from search_optionRegex [OF s] have f: "lastIndex \<le> index" "index < lastIndex + length (drop lastIndex line)"
    "index + 2 \<le> e" "e \<le> lastIndex + length (drop lastIndex line)" "caps = [(index, index + 1)]"
    "65 \<le> drop lastIndex line ! (index - lastIndex)" "drop lastIndex line ! (index - lastIndex) \<le> 68"
    by blast+
  from f(1,2) l have i: "index < length line" by simp
  with f(1) have n: "drop lastIndex line ! (index - lastIndex) = line ! index" by simp
  from i have "captured line caps 0 = [line ! index]"
    by (simp add: captured_def slice_def f(5) take_Suc_conv_app_nth [symmetric] Cons_nth_drop_Suc [symmetric])
  moreover from f(6,7) n have "line ! index = 65 \<or> line ! index = 66 \<or> line ! index = 67 \<or> line ! index = 68"
    by auto
  ultimately have "toUpperCase (captured line caps 0) \<in> {js ''A'', js ''B'', js ''C'', js ''D''}"
    by (auto simp: toUpperCase_def upperUnit_def js_def)
  with f l show ?thesis by simp
qed

lemma optionExecLoop_unfold:
  "optionExecLoop line lastIndex =
     (case exec False optionRegex line lastIndex of
        None \<Rightarrow> []
      | Some (index, e, caps) \<Rightarrow>
          \<lparr> m_letter = toUpperCase (captured line caps 0),
            matchStart = index,
            matchEnd = index + (e - index) - (if endsWithSpace (slice line index e) then 1 else 0),
            contentStart = index + (e - index) \<rparr>
          # optionExecLoop line e)"
proof (cases "exec False optionRegex line lastIndex")
  case None
  then show ?thesis by (subst optionExecLoop.simps) simp
next
  case (Some x)
  obtain index e caps where x: "x = (index, e, caps)" by (cases x)
  from exec_optionRegex [of line lastIndex index e caps] Some x
  have "lastIndex < e \<and> e \<le> length line" by simp
  with Some x show ?thesis by (subst optionExecLoop.simps) simp
qed

lemma optionExecLoop_letters:
  "\<forall>mt\<in>set (optionExecLoop line lastIndex). m_letter mt \<in> {js ''A'', js ''B'', js ''C'', js ''D''}"
proof (induction line lastIndex rule: optionExecLoop.induct)
  case (1 line lastIndex)
  show ?case
  proof (cases "exec False optionRegex line lastIndex")
    case None
    then show ?thesis by (subst optionExecLoop.simps) simp
  next
    case (Some x)
    obtain index e caps where x: "x = (index, e, caps)" by (cases x)
    from exec_optionRegex [of line lastIndex index e caps] Some x
    have b: "lastIndex < e \<and> e \<le> length line"
      and l: "toUpperCase (captured line caps 0) \<in> {js ''A'', js ''B'', js ''C'', js ''D''}"
      by simp_all
    from "1.IH" [OF Some [unfolded x] refl refl] b
    have "\<forall>mt\<in>set (optionExecLoop line e). m_letter mt \<in> {js ''A'', js ''B'', js ''C'', js ''D''}"
      by simp
    with Some x b l show ?thesis by (subst optionExecLoop.simps) simp
  qed
qed


lemma find_letter_None:
  "find (\<lambda>opt. letter opt = l) opts = None \<longleftrightarrow> l \<notin> set (map letter opts)"
  by (force simp: find_None_iff image_iff)

lemma optionsLoop_prefix: "\<exists>added. optionsLoop p ms opts = opts @ added"
proof (induction ms arbitrary: opts)
  case Nil
  then show ?case by simp
next
  case (Cons mt rest)
  let ?new = "\<lparr> letter = m_letter mt,
      opt_text = normalizeOptionText (slice (p_text p) (contentStart mt)
        (case rest of [] \<Rightarrow> length (p_text p) | nx # x \<Rightarrow> matchStart nx)),
      textWithUnderline = buildFormattedText (runs p) (contentStart mt)
        (case rest of [] \<Rightarrow> length (p_text p) | nx # x \<Rightarrow> matchStart nx),
      isCorrect = list_ex (\<lambda>run. overlapsHighlight run (matchStart mt)
        (case rest of [] \<Rightarrow> length (p_text p) | nx # x \<Rightarrow> matchStart nx)) (runs p) \<rparr>"
  from Cons.IH [of opts] Cons.IH [of "opts @ [?new]"]
  show ?case by (auto simp: Let_def)
qed

lemma optionsLoop_distinct:
  "distinct (map letter opts) \<Longrightarrow> distinct (map letter (optionsLoop p ms opts))"
proof (induction ms arbitrary: opts)
  case Nil
  then show ?case by simp
next
  case (Cons mt rest)
  show ?case
    using Cons.prems
    by (auto simp: Let_def find_letter_None intro!: Cons.IH)
qed

lemma optionsLoop_letters:
  "set (map letter (optionsLoop p ms opts)) \<subseteq> set (map letter opts) \<union> set (map m_letter ms)"
proof (induction ms arbitrary: opts)
  case Nil
  then show ?case by simp
next
  case (Cons mt rest)
  let ?new = "\<lparr> letter = m_letter mt,
      opt_text = normalizeOptionText (slice (p_text p) (contentStart mt)
        (case rest of [] \<Rightarrow> length (p_text p) | nx # x \<Rightarrow> matchStart nx)),
      textWithUnderline = buildFormattedText (runs p) (contentStart mt)
        (case rest of [] \<Rightarrow> length (p_text p) | nx # x \<Rightarrow> matchStart nx),
      isCorrect = list_ex (\<lambda>run. overlapsHighlight run (matchStart mt)
        (case rest of [] \<Rightarrow> length (p_text p) | nx # x \<Rightarrow> matchStart nx)) (runs p) \<rparr>"
  from Cons.IH [of opts] Cons.IH [of "opts @ [?new]"]
  show ?case by (auto simp: Let_def)
qed

lemma optionsLoop_again:
  "set (map letter (optionsLoop p ms opts)) \<subseteq> set (map letter done) \<Longrightarrow>
   optionsLoop p ms done = done"
proof (induction ms arbitrary: opts)
  case Nil
  then show ?case by simp
next
  case (Cons mt rest)
  let ?next = "case rest of [] \<Rightarrow> length (p_text p) | nx # x \<Rightarrow> matchStart nx"
  let ?text = "normalizeOptionText (slice (p_text p) (contentStart mt) ?next)"
  let ?new = "\<lparr> letter = m_letter mt, opt_text = ?text,
      textWithUnderline = buildFormattedText (runs p) (contentStart mt) ?next,
      isCorrect = list_ex (\<lambda>run. overlapsHighlight run (matchStart mt) ?next) (runs p) \<rparr>"
  show ?case
  proof (cases "?text = []")
    case True
    with Cons.prems have "set (map letter (optionsLoop p rest opts)) \<subseteq> set (map letter done)"
      by (simp add: Let_def)
    from Cons.IH [OF this] True show ?thesis by (simp add: Let_def)
  next
    case False
    show ?thesis
    proof (cases "find (\<lambda>opt. letter opt = m_letter mt) opts = None")
      case True
      with False Cons.prems have s: "set (map letter (optionsLoop p rest (opts @ [?new]))) \<subseteq> set (map letter done)"
        by (simp add: Let_def)
      from optionsLoop_prefix [of p rest "opts @ [?new]"] obtain added where
        "optionsLoop p rest (opts @ [?new]) = (opts @ [?new]) @ added" by blast
      with s have "m_letter mt \<in> set (map letter done)" by auto
      then have "find (\<lambda>opt. letter opt = m_letter mt) done \<noteq> None"
        by (simp add: find_letter_None)
      with Cons.IH [OF s] show ?thesis by (simp add: Let_def)
    next
      case f: False
      with Cons.prems have s: "set (map letter (optionsLoop p rest opts)) \<subseteq> set (map letter done)"
        by (simp add: Let_def)
      from optionsLoop_prefix [of p rest opts] obtain added where
        "optionsLoop p rest opts = opts @ added" by blast
      moreover from f have "m_letter mt \<in> set (map letter opts)"
        by (simp add: find_letter_None)
      ultimately have "m_letter mt \<in> set (map letter done)" using s by auto
      then have "find (\<lambda>opt. letter opt = m_letter mt) done \<noteq> None"
        by (simp add: find_letter_None)
      with Cons.IH [OF s] show ?thesis by (simp add: Let_def)
    qed
  qed
qed

lemma map_sort_key: "map f (sort_key f xs) = sort (map f xs)"
  using sort_key_map_pair [of f "\<lambda>x. x" xs] by simp

lemma extract_sorted_distinct:
  assumes "distinct (map letter (options q))" "sorted (map letter (options q))"
  shows "distinct (map letter (options (extractOptionsWithUnderline p q))) \<and>
         sorted (map letter (options (extractOptionsWithUnderline p q)))"
proof (cases "optionExecLoop (p_text p) 0")
  case Nil
  with assms show ?thesis by (simp add: extractOptionsWithUnderline_def)
next
  case (Cons mt rest)
  from assms(1) have "distinct (map letter (optionsLoop p (mt # rest) (options q)))"
    by (rule optionsLoop_distinct)
  then have "distinct (map letter (sort_key letter (optionsLoop p (mt # rest) (options q))))"
    by (simp only: map_sort_key distinct_sort)
  with Cons show ?thesis
    by (simp add: extractOptionsWithUnderline_def Let_def del: optionsLoop.simps)
qed

lemma extract_letters:
  "set (map letter (options (extractOptionsWithUnderline p q))) \<subseteq>
     set (map letter (options q)) \<union> {js ''A'', js ''B'', js ''C'', js ''D''}"
proof (cases "optionExecLoop (p_text p) 0")
  case Nil
  then show ?thesis by (auto simp: extractOptionsWithUnderline_def)
next
  case (Cons mt rest)
  have "set (map letter (optionsLoop p (mt # rest) (options q))) \<subseteq>
      set (map letter (options q)) \<union> set (map m_letter (mt # rest))"
    by (rule optionsLoop_letters)
  moreover have "set (map m_letter (mt # rest)) \<subseteq> {js ''A'', js ''B'', js ''C'', js ''D''}"
    using optionExecLoop_letters [of "p_text p" 0] unfolding Cons by auto
  ultimately have "set (map letter (optionsLoop p (mt # rest) (options q))) \<subseteq>
      set (map letter (options q)) \<union> {js ''A'', js ''B'', js ''C'', js ''D''}"
    by blast
  with Cons show ?thesis
    by (simp add: extractOptionsWithUnderline_def Let_def del: optionsLoop.simps)
qed

lemma extract_idempotent:
  "extractOptionsWithUnderline p (extractOptionsWithUnderline p q) = extractOptionsWithUnderline p q"
proof (cases "optionExecLoop (p_text p) 0")
  case Nil
  then show ?thesis by (simp add: extractOptionsWithUnderline_def)
next
  case (Cons mt rest)
  let ?opts = "optionsLoop p (mt # rest) (options q)"
  let ?L = "sort_key letter ?opts"
  have "set (map letter ?opts) \<subseteq> set (map letter ?L)" by simp
  then have again: "optionsLoop p (mt # rest) ?L = ?L" by (rule optionsLoop_again)
  have sorted: "sort_key letter ?L = ?L"
    by (rule sort_key_id_if_sorted) simp
  have q1: "extractOptionsWithUnderline p q =
      q\<lparr> options := ?L,
         q_type := (if length ?opts \<ge> 2 \<and> q_type q \<noteq> writing then multiple_choice else q_type q) \<rparr>"
    using Cons by (simp add: extractOptionsWithUnderline_def Let_def del: optionsLoop.simps)
  show ?thesis
    unfolding q1
    by (subst extractOptionsWithUnderline_def)
      (simp add: Cons Let_def again sorted del: optionsLoop.simps)
qed

lemma collect_invariant:
  assumes new: "\<And>st line caps. P (newQuestion st line caps)"
    and ext: "\<And>p q. P q \<Longrightarrow> P (extractOptionsWithUnderline p q)"
    and other: "\<And>p line q. P q \<Longrightarrow> P (questionLine p line q)"
    and fin: "\<And>q. P q \<Longrightarrow> P (finalizeQuestion q)"
    and out: "\<forall>q\<in>set (out_questions st). P q"
    and cur: "\<forall>q. currentQuestion st = Some q \<longrightarrow> P q"
  shows "\<forall>q\<in>set (pushCurrent (foldl parseLine st ps)). P q"
  using out cur
proof (induction ps arbitrary: st)
  case Nil
  then show ?case using fin by (auto simp: pushCurrent_def split: option.splits)
next
  case (Cons p ps)
  have "(\<forall>q\<in>set (out_questions (parseLine st p)). P q) \<and>
        (\<forall>q. currentQuestion (parseLine st p) = Some q \<longrightarrow> P q)"
  proof (cases "isQuestionStartLine p")
    case True
    from parseLine_start [OF True, of st] obtain index e caps where
      s: "parseLine st p =
            st\<lparr> inReading := False, out_questions := pushCurrent st,
                currentQuestion :=
                  Some (extractOptionsWithUnderline p (newQuestion st (trim (p_text p)) caps)) \<rparr>"
      by blast
    have "\<forall>q\<in>set (pushCurrent st). P q"
      using Cons.prems fin by (auto simp: pushCurrent_def split: option.splits)
    with new ext show ?thesis by (simp add: s)
  next
    case False
    from parseLine_other [OF False, of st] have
      o: "out_questions (parseLine st p) = out_questions st" and
      c: "currentQuestion (parseLine st p) = currentQuestion st \<or>
          (\<exists>q. currentQuestion st = Some q \<and>
               currentQuestion (parseLine st p) = Some (questionLine p (trim (p_text p)) q))"
      by blast+
    from c have "\<forall>q. currentQuestion (parseLine st p) = Some q \<longrightarrow> P q"
      using Cons.prems(2) other by auto
    with o Cons.prems(1) show ?thesis by simp
  qed
  then show ?case using Cons.IH [of "parseLine st p"] by simp
qed

lemma questionLine_options:
  "options (questionLine p line q) = options q \<or>
   options (questionLine p line q) = options (extractOptionsWithUnderline p q)"
  by (simp add: questionLine_def Let_def split: option.splits)

text \<open>
  Claim C7. The extractor keeps the option letters of a question sorted and pairwise
  different; run again on the same paragraph it changes nothing, so it adds no option;
  and in the result of every parse the option letters of every question are sorted,
  pairwise different, and among \<open>A\<close>, \<open>B\<close>, \<open>C\<close>, \<open>D\<close>.
\<close>

theorem options_sorted_distinct:
  "(distinct (map letter (options q)) \<and> sorted (map letter (options q)) \<longrightarrow>
      distinct (map letter (options (extractOptionsWithUnderline p q))) \<and>
      sorted (map letter (options (extractOptionsWithUnderline p q)))) \<and>
   extractOptionsWithUnderline p (extractOptionsWithUnderline p q) = extractOptionsWithUnderline p q \<and>
   (\<exists>r. parseQuestionsFromParagraphs ps emptyExamData = Some r \<and>
      (\<forall>x\<in>set (questions r).
         distinct (map letter (options x)) \<and> sorted (map letter (options x)) \<and>
         set (map letter (options x)) \<subseteq> {js ''A'', js ''B'', js ''C'', js ''D''}))"
proof -
  let ?P = "\<lambda>x. distinct (map letter (options x)) \<and> sorted (map letter (options x)) \<and>
      set (map letter (options x)) \<subseteq> {js ''A'', js ''B'', js ''C'', js ''D''}"
  have ext: "?P (extractOptionsWithUnderline p x)" if "?P x" for p x
    using extract_sorted_distinct [of x p] extract_letters [of p x] that by auto
  have other: "?P (questionLine p line x)" if "?P x" for p line x
    using questionLine_options [of p line x]
  proof
    assume "options (questionLine p line x) = options x"
    with that show ?thesis by simp
  next
    assume "options (questionLine p line x) = options (extractOptionsWithUnderline p x)"
    with ext [OF that, of p] show ?thesis by simp
  qed
  have "\<forall>x\<in>set (pushCurrent (foldl parseLine (initialState []) ps)). ?P x"
    by (rule collect_invariant [where P = ?P])
      (use ext other in \<open>simp_all add: initialState_def\<close>)
  then have c: "\<forall>x\<in>set (collectQuestions ps []). ?P x"
    by (simp add: collectQuestions_def)
  obtain r where r: "parseQuestionsFromParagraphs ps emptyExamData = Some r"
    using parseQuestionsFromParagraphs_total by blast
  then have "questions r = sort_key number (fst (markAnswers (collectQuestions ps []) Map.empty))"
    by (simp add: parse_questions emptyExamData_def)
  then have eq: "set (map options (questions r)) = set (map options (collectQuestions ps []))"
    using markAnswers_fields(3) [of "collectQuestions ps []" Map.empty]
    by (metis set_map set_sort)
  have a: "\<forall>x\<in>set (questions r). ?P x"
  proof
    fix x assume "x \<in> set (questions r)"
    then have "options x \<in> set (map options (questions r))" by simp
    then have "options x \<in> set (map options (collectQuestions ps []))" by (simp only: eq)
    then obtain y where y: "y \<in> set (collectQuestions ps [])" "options y = options x" by auto
    with c have "?P y" by blast
    with y(2) show "?P x" by simp
  qed
  have 1: "distinct (map letter (options q)) \<and> sorted (map letter (options q)) \<longrightarrow>
      distinct (map letter (options (extractOptionsWithUnderline p q))) \<and>
      sorted (map letter (options (extractOptionsWithUnderline p q)))"
    using extract_sorted_distinct [of q p] by blast
  have 2: "extractOptionsWithUnderline p (extractOptionsWithUnderline p q) =
      extractOptionsWithUnderline p q"
    by (rule extract_idempotent)
  from r a have 3: "\<exists>r. parseQuestionsFromParagraphs ps emptyExamData = Some r \<and>
      (\<forall>x\<in>set (questions r). ?P x)"
    by blast
  from 1 2 3 show ?thesis by blast
qed

theorem options_sorted_distinct_witness:
  "map letter (options (extractOptionsWithUnderline (plain (js ''B) dog A) cat B) bird'')) blankQuestion)) =
     [js ''A'', js ''B''] \<and>
   map opt_text (options (extractOptionsWithUnderline (plain (js ''B) dog A) cat B) bird'')) blankQuestion)) =
     [js ''cat'', js ''dog''] \<and>
   extractOptionsWithUnderline (plain (js ''B) dog A) cat B) bird''))
     (extractOptionsWithUnderline (plain (js ''B) dog A) cat B) bird'')) blankQuestion) =
   extractOptionsWithUnderline (plain (js ''B) dog A) cat B) bird'')) blankQuestion"
  using options_sorted_distinct [of blankQuestion "plain (js ''B) dog A) cat B) bird'')" "[]"]
  by (simp add: eval_defs blankQuestion_def)

subsection \<open>The formatted text\<close>

lemma trimEnd_Cons:
  "trimEnd (c # y) = (if isWhite c \<and> (\<forall>d\<in>set y. isWhite d) then [] else c # trimEnd y)"
  by (auto simp: trimEnd_def dropWhile_append)

lemma trimEnd_Nil [simp]: "trimEnd [] = []"
  by (simp add: trimEnd_def)

lemma trim_trimEnd: "trim s = trimEnd (dropWhile isWhite s)"
  by (simp add: trim_def trimEnd_def)


lemma dropWhile_replaceRuns:
  "dropWhile isWhite (replaceRuns isWhite s) = replaceRuns isWhite (dropWhile isWhite s)"
proof (induction isWhite s rule: replaceRuns.induct)
  case 1
  then show ?case by simp
next
  case (2 c cs)
  show ?case
  proof (cases "isWhite c")
    case True
    have "isWhite 32" by (simp add: isWhite_def)
    moreover have "dropWhile isWhite (dropWhile isWhite cs) = dropWhile isWhite cs"
      by (simp add: dropWhile_idem)
    ultimately show ?thesis using True 2 by simp
  next
    case False
    then show ?thesis by simp
  qed
qed

lemma normFrom_InGap_dropWhile: "normFrom InGap s = normFrom InGap (dropWhile isWhite s)"
  by (induction s) simp_all

lemma normFrom_AtStart: "normFrom AtStart s = normFrom InWord (dropWhile isWhite s)"
  by (induction s) simp_all

lemma trimEnd_replaceRuns: "trimEnd (replaceRuns isWhite x) = normFrom InWord x"
proof (induction isWhite x rule: replaceRuns.induct)
  case 1
  then show ?case by simp
next
  case (2 c cs)
  show ?case
  proof (cases "isWhite c")
    case True
    note ih = 2(1) [OF True]
    have w: "isWhite 32" by (simp add: isWhite_def)
    have l: "trimEnd (replaceRuns isWhite (c # cs)) =
        (if \<forall>e\<in>set (replaceRuns isWhite (dropWhile isWhite cs)). isWhite e then []
         else 32 # normFrom InWord (dropWhile isWhite cs))"
      using True w ih by (simp add: trimEnd_Cons)
    have r: "normFrom InWord (c # cs) = normFrom InGap (dropWhile isWhite cs)"
      using True normFrom_InGap_dropWhile [of cs] by simp
    show ?thesis
    proof (cases "dropWhile isWhite cs")
      case Nil
      show ?thesis unfolding l r Nil by simp
    next
      case (Cons d ds)
      then have d: "\<not> isWhite d" by (metis dropWhile_eq_Cons_conv)
      show ?thesis unfolding l r Cons using d by simp
    qed
  next
    case False
    with 2(2) show ?thesis by (simp add: trimEnd_Cons)
  qed
qed

lemma normalizeWs_normFrom: "normalizeWs s = normFrom AtStart s"
  by (simp add: normalizeWs_def trim_trimEnd dropWhile_replaceRuns trimEnd_replaceRuns normFrom_AtStart)


lemma strip_tag: "isTag t \<Longrightarrow> strip False (t @ z) = strip False z"
  by (auto simp: isTag_def js_def)

lemma strip_flat: "wellFormed toks \<Longrightarrow> strip False (flat toks) = chars toks"
  by (induction toks rule: wellFormed.induct) (simp_all add: strip_tag)

lemma normFrom_tag:
  "isTag t \<Longrightarrow> normFrom q (t @ z) = (if q = InGap then [32] else []) @ t @ normFrom InWord z"
  by (cases q) (auto simp: isTag_def js_def isWhite_def)

lemma normFrom_flat: "wellFormed toks \<Longrightarrow> normFrom q (flat toks) = flat (normToks q toks)"
proof (induction toks arbitrary: q rule: wellFormed.induct)
  case 1
  then show ?case by simp
next
  case (2 t ts)
  then show ?case by (simp add: normFrom_tag)
next
  case (3 c ts)
  then show ?case by (cases q) simp_all
qed

lemma wellFormed_normToks: "wellFormed toks \<Longrightarrow> wellFormed (normToks q toks)"
proof (induction toks arbitrary: q rule: wellFormed.induct)
  case 1
  then show ?case by simp
next
  case (2 t ts)
  then show ?case by simp
next
  case (3 c ts)
  then show ?case by (cases q) simp_all
qed

lemma lockstep:
  "normFrom AtStart (chars (normToks AtStart toks)) = normFrom AtStart (chars toks) \<and>
   normFrom AtStart (chars (normToks InWord toks)) = normFrom AtStart (chars toks) \<and>
   normFrom AtStart (chars (normToks InGap toks)) = normFrom AtStart (chars toks) \<and>
   normFrom InWord (chars (normToks InWord toks)) = normFrom InWord (chars toks) \<and>
   normFrom InWord (chars (normToks InGap toks)) = normFrom InGap (chars toks) \<and>
   normFrom InGap (chars (normToks InWord toks)) = normFrom InGap (chars toks) \<and>
   normFrom InGap (chars (normToks InGap toks)) = normFrom InGap (chars toks)"
proof (induction toks rule: chars.induct)
  case 1
  then show ?case by simp
next
  case (2 t ts)
  have "isWhite 32" by (simp add: isWhite_def)
  with 2 show ?case by simp
next
  case (3 c ts)
  have "isWhite 32" by (simp add: isWhite_def)
  with 3 show ?case by simp
qed

lemma flat_append [simp]: "flat (xs @ ys) = flat xs @ flat ys"
  by (induction xs rule: flat.induct) simp_all

lemma chars_append [simp]: "chars (xs @ ys) = chars xs @ chars ys"
  by (induction xs rule: chars.induct) simp_all

lemma wellFormed_append [simp]: "wellFormed (xs @ ys) \<longleftrightarrow> wellFormed xs \<and> wellFormed ys"
  by (induction xs rule: wellFormed.induct) simp_all

lemma flat_Inr [simp]: "flat (map Inr s) = s"
  by (induction s) simp_all

lemma chars_Inr [simp]: "chars (map Inr s) = s"
  by (induction s) simp_all

lemma wellFormed_escapeHtml: "wellFormed (map Inr (escapeHtml s))"
  by (induction s) (simp_all add: escapeHtml_def escapeUnit_def js_def)

lemma flat_runToks: "flat (runToks run a b) = formatRun run a b"
  by (simp add: runToks_def formatRun_def applyFormatting_def js_def)

lemma chars_runToks: "chars (runToks run a b) = escapeHtml (textPortion run a b)"
  by (simp add: runToks_def escapeHtml_def)

lemma wellFormed_runToks: "wellFormed (runToks run a b)"
  by (simp add: runToks_def wellFormed_escapeHtml isTag_def)

lemma raw_tokens:
  "flat (concat (map (\<lambda>run. runToks run a b) rs)) = rawFormattedText rs a b \<and>
   chars (concat (map (\<lambda>run. runToks run a b) rs)) =
     escapeHtml (concat (map (\<lambda>run. textPortion run a b) rs)) \<and>
   wellFormed (concat (map (\<lambda>run. runToks run a b) rs))"
  by (induction rs)
    (simp_all add: rawFormattedText_def flat_runToks chars_runToks
      wellFormed_runToks escapeHtml_def)

text \<open>
  The code units of a text whose offsets lie in a range, by \<open>take\<close> and \<open>drop\<close>; with it
  the part of a well-formed run that the builder takes is the part of the run in the
  range.
\<close>

lemma range_enumerate:
  "map snd (filter (\<lambda>(pos, c). a \<le> pos \<and> pos < b) (enumerate s t)) =
     take (min (s + length t) b - max s a) (drop (max s a - s) t)"
proof (induction t arbitrary: s)
  case Nil
  then show ?case by simp
next
  case (Cons c cs)
  note ih = Cons.IH [of "Suc s"]
  consider "a \<le> s" "s < b" | "s < a" | "a \<le> s" "b \<le> s" by linarith
  then show ?case
  proof cases
    case 1
    then have m: "max (Suc s) a = Suc s" "max s a = s" by simp_all
    from 1 have "min (s + length (c # cs)) b - s = Suc (min (Suc s + length cs) b - Suc s)"
      by (simp add: min_def) arith
    with 1 m ih show ?thesis by simp
  next
    case 2
    then have m: "max (Suc s) a = a" "max s a = a" by simp_all
    from 2 have "drop (a - s) (c # cs) = drop (a - Suc s) cs"
      by (simp add: drop_Cons')
    with 2 m ih show ?thesis by simp
  next
    case 3
    then have "min (Suc s + length cs) b - max (Suc s) a = 0"
      "min (s + length (c # cs)) b - max s a = 0"
      by (simp_all add: min_def max_def)
    with 3 ih show ?thesis by simp
  qed
qed

lemma range_zip:
  "map snd (filter (\<lambda>(pos, c). a \<le> pos \<and> pos < b) (zip [s..<s + length t] t)) =
     take (min (s + length t) b - max s a) (drop (max s a - s) t)"
  using range_enumerate [of a b s t] by (simp only: enumerate_eq_zip)

lemma textPortion_runPart:
  assumes "wellFormedRun run"
  shows "textPortion run a b = runPart run a b"
proof -
  let ?s = "run_start run" and ?t = "run_text run"
  from assms have e: "run_end run = ?s + length ?t" by (simp add: wellFormedRun_def)
  have r: "runPart run a b = take (min (?s + length ?t) b - max ?s a) (drop (max ?s a - ?s) ?t)"
    unfolding runPart_def by (rule range_zip)
  show ?thesis
  proof (cases "run_end run \<le> a \<or> run_start run \<ge> b")
    case True
    then have "min (?s + length ?t) b \<le> max ?s a"
      using e by arith
    then have "min (?s + length ?t) b - max ?s a = 0" by simp
    with True show ?thesis by (simp add: r textPortion_def)
  next
    case False
    then show ?thesis by (simp add: r textPortion_def Let_def substr_def e)
  qed
qed

lemma taken_plainContent:
  "list_all wellFormedRun rs \<Longrightarrow>
   concat (map (\<lambda>run. textPortion run a b) rs) = plainContent rs a b"
  by (induction rs) (simp_all add: plainContent_def textPortion_runPart)

text \<open>
  The runs of an extracted paragraph are well formed and lie one after the other from
  offset 0, so the plain content of a range is that range of the paragraph's text.
\<close>

lemma paragraphRuns_wellFormed: "list_all wellFormedRun (paragraphRuns rs pos)"
  by (induction rs arbitrary: pos) (simp_all add: wellFormedRun_def)

lemma paragraphRuns_content:
  "plainContent (paragraphRuns rs pos) a b =
     map snd (filter (\<lambda>(i, c). a \<le> i \<and> i < b)
       (zip [pos..<pos + length (concat (map run_text (paragraphRuns rs pos)))]
            (concat (map run_text (paragraphRuns rs pos)))))"
proof (induction rs arbitrary: pos)
  case Nil
  then show ?case by (simp add: plainContent_def)
next
  case (Cons run rest)
  show ?case
  proof (cases "runText run = []")
    case True
    with Cons.IH [of pos] show ?thesis by simp
  next
    case False
    let ?t = "runText run"
    let ?T = "concat (map run_text (paragraphRuns rest (pos + length ?t)))"
    have u: "[pos..<pos + (length ?t + length ?T)] =
        [pos..<pos + length ?t] @ [pos + length ?t..<pos + length ?t + length ?T]"
      by (metis add.assoc upt_add_eq_append le_add1)
    have z: "zip [pos..<pos + (length ?t + length ?T)] (?t @ ?T) =
        zip [pos..<pos + length ?t] ?t @ zip [pos + length ?t..<pos + length ?t + length ?T] ?T"
      unfolding u by (rule zip_append) simp
    from False Cons.IH [of "pos + length ?t"] show ?thesis
      by (simp add: plainContent_def runPart_def z)
  qed
qed

lemma paragraph_content:
  "plainContent (runs (paragraphDataOf p)) a b = slice (p_text (paragraphDataOf p)) a b"
proof -
  let ?T = "p_text (paragraphDataOf p)"
  have "plainContent (runs (paragraphDataOf p)) a b =
      map snd (filter (\<lambda>(i, c). a \<le> i \<and> i < b) (zip [0..<0 + length ?T] ?T))"
    using paragraphRuns_content [of "getElementsByTagName p (js ''w:r'')" 0 a b]
    by (simp add: paragraphDataOf_def Let_def)
  also have "\<dots> = take (min (0 + length ?T) b - max 0 a) (drop (max 0 a - 0) ?T)"
    by (rule range_zip)
  also have "\<dots> = take (b - a) (drop a ?T)"
    by (cases "b \<le> length ?T") (simp_all add: min_def)
  finally show ?thesis by (simp add: slice_def)
qed

text \<open>
  Claim C8, as amended. For every list of well-formed runs and every range, the text
  built before the final clean-up, with its tags stripped, is exactly the plain content
  of the range with \<open>&\<close>, \<open><\<close>, \<open>>\<close> and the no-break space written as entities; the
  returned text, with its tags stripped, equals that escaped content up to whitespace,
  that is, once the runs of whitespace of both are collapsed to one space and their ends
  trimmed. The runs of every extracted paragraph are well formed, and their plain
  content in a range is that range of the paragraph's text.
\<close>

theorem formatted_text_visible:
  "(list_all wellFormedRun rs \<longrightarrow>
      stripTags (rawFormattedText rs startPos endPos) =
        escapeHtml (plainContent rs startPos endPos) \<and>
      normalizeWs (stripTags (buildFormattedText rs startPos endPos)) =
        normalizeWs (escapeHtml (plainContent rs startPos endPos))) \<and>
   (\<forall>pd\<in>set (allParagraphData xmlDoc).
      list_all wellFormedRun (runs pd) \<and>
      plainContent (runs pd) startPos endPos = slice (p_text pd) startPos endPos)"
proof -
  let ?toks = "concat (map (\<lambda>run. runToks run startPos endPos) rs)"
  let ?taken = "concat (map (\<lambda>run. textPortion run startPos endPos) rs)"
  from raw_tokens [of startPos endPos rs] have
    f: "flat ?toks = rawFormattedText rs startPos endPos" and
    c: "chars ?toks = escapeHtml ?taken" and
    w: "wellFormed ?toks"
    by blast+
  have 1: "stripTags (rawFormattedText rs startPos endPos) = escapeHtml ?taken"
    using strip_flat [OF w] by (simp add: stripTags_def f c)
  have "buildFormattedText rs startPos endPos = normalizeWs (flat ?toks)"
    by (simp add: buildFormattedText_def normalizeWs_def f)
  also have "\<dots> = flat (normToks AtStart ?toks)"
    by (simp add: normalizeWs_normFrom normFrom_flat [OF w])
  finally have "stripTags (buildFormattedText rs startPos endPos) = chars (normToks AtStart ?toks)"
    using strip_flat [OF wellFormed_normToks [OF w, of AtStart]] by (simp add: stripTags_def)
  then have "normalizeWs (stripTags (buildFormattedText rs startPos endPos)) =
      normFrom AtStart (chars ?toks)"
    using lockstep [of ?toks] by (simp add: normalizeWs_normFrom)
  then have 2: "normalizeWs (stripTags (buildFormattedText rs startPos endPos)) =
      normalizeWs (escapeHtml ?taken)"
    by (simp add: normalizeWs_normFrom c)
  have 3: "list_all wellFormedRun rs \<longrightarrow>
      stripTags (rawFormattedText rs startPos endPos) =
        escapeHtml (plainContent rs startPos endPos) \<and>
      normalizeWs (stripTags (buildFormattedText rs startPos endPos)) =
        normalizeWs (escapeHtml (plainContent rs startPos endPos))"
    using 1 2 taken_plainContent [of rs startPos endPos] by auto
  have 4: "\<forall>pd\<in>set (allParagraphData xmlDoc).
      list_all wellFormedRun (runs pd) \<and>
      plainContent (runs pd) startPos endPos = slice (p_text pd) startPos endPos"
  proof
    fix pd assume "pd \<in> set (allParagraphData xmlDoc)"
    then obtain p where pd: "pd = paragraphDataOf p" by (auto simp: allParagraphData_def)
    have "list_all wellFormedRun (runs (paragraphDataOf p))"
      by (simp add: paragraphDataOf_def Let_def paragraphRuns_wellFormed)
    then show "list_all wellFormedRun (runs pd) \<and>
        plainContent (runs pd) startPos endPos = slice (p_text pd) startPos endPos"
      by (simp add: pd paragraph_content)
  qed
  from 3 4 show ?thesis by blast
qed

lemmas fmt_defs = js_def isWhite_def trim_def substr_def slice_def escapeUnit_def escapeHtml_def
  textPortion_def applyFormatting_def formatRun_def rawFormattedText_def buildFormattedText_def
  plainRun_def stripTags_def runPart_def plainContent_def wellFormedRun_def normalizeWs_def Let_def

text \<open>
  Two runs, the first bold and underlined, and the range from 2 to 11, which cuts both:
  the plain content is \<open>&D  <a  b\<close>. A paragraph element with two runs of the same texts
  gives a paragraph whose runs have that plain content in the range, the range of its text.
\<close>

theorem formatted_text_visible_witness:
  "list_all wellFormedRun
     [(plainRun (js '' R&D  <a'') 0) \<lparr> hasUnderline := True, hasBold := True \<rparr>,
      plainRun (js ''  b  '') 8] \<and>
   plainContent
     [(plainRun (js '' R&D  <a'') 0) \<lparr> hasUnderline := True, hasBold := True \<rparr>,
      plainRun (js ''  b  '') 8] 2 11 = js ''&D  <a  b'' \<and>
   stripTags (rawFormattedText
     [(plainRun (js '' R&D  <a'') 0) \<lparr> hasUnderline := True, hasBold := True \<rparr>,
      plainRun (js ''  b  '') 8] 2 11) = js ''&amp;D  &lt;a  b'' \<and>
   stripTags (buildFormattedText
     [(plainRun (js '' R&D  <a'') 0) \<lparr> hasUnderline := True, hasBold := True \<rparr>,
      plainRun (js ''  b  '') 8] 2 11) = js ''&amp;D &lt;a b'' \<and>
   map (\<lambda>pd. (p_text pd, list_all wellFormedRun (runs pd), plainContent (runs pd) 2 11))
     (allParagraphData
        (Document [Element (js ''w:p'') []
           [runElement [boldElement []] (js '' R&D  <a''), runElement [] (js ''  b  '')]])) =
     [(js '' R&D  <a  b  '', True, js ''&D  <a  b'')]"
  using formatted_text_visible
    [of "[(plainRun (js '' R&D  <a'') 0) \<lparr> hasUnderline := True, hasBold := True \<rparr>,
          plainRun (js ''  b  '') 8]" 2 11
        "Document [Element (js ''w:p'') []
           [runElement [boldElement []] (js '' R&D  <a''), runElement [] (js ''  b  '')]]"]
  by (simp add: fmt_defs dom_defs runElement_def boldElement_def)

text \<open>
  The claim as stated fails: the builder collapses and trims whitespace and escapes the
  text. In the run \<open>xa  b y\<close> the range from 1 to 6 holds \<open>a  b \<close> and the stripped result
  is \<open>a b\<close>; in the run \<open>xR&Dy\<close> the range from 1 to 4 holds \<open>R&D\<close> and the stripped result
  is \<open>R&amp;D\<close>.
\<close>

theorem formatted_text_counterexample:
  "stripTags (buildFormattedText [plainRun (js ''xa  b y'') 0] 1 6) = js ''a b'' \<and>
   plainContent [plainRun (js ''xa  b y'') 0] 1 6 = js ''a  b '' \<and>
   stripTags (buildFormattedText [plainRun (js ''xR&Dy'') 0] 1 4) = js ''R&amp;D'' \<and>
   plainContent [plainRun (js ''xR&Dy'') 0] 1 4 = js ''R&D''"
  by (simp add: fmt_defs)

subsection \<open>Title and time limit\<close>

text \<open>
  Claim C9. For every document, the parse returns an ExamData whose title is the constant
  of the source (the code units of its Vietnamese title) and whose time limit is 60:
  neither depends on the document.
\<close>

theorem parse_title_timeLimit:
  "\<exists>r. parseDocumentXML xmlDoc = Some r \<and>
       title r = [272, 7873, 32, 116, 104, 105, 32, 84, 105, 7871, 110, 103, 32, 65, 110, 104] \<and>
       timeLimit r = Some 60"
  by (simp add: parseDocumentXML_def parseQuestionsFromParagraphs_def groupQuestionsIntoSections_total
      emptyExamData_def split: prod.splits)

theorem parse_title_timeLimit_witness:
  "\<exists>r. parseDocumentXML (Document [Element (js ''w:p'') [] [Element (js ''w:r'') []
          [Element (js ''w:t'') [] [TextNode (js ''Title: another exam, 45 minutes'')]]]]) = Some r \<and>
       title r = [272, 7873, 32, 116, 104, 105, 32, 84, 105, 7871, 110, 103, 32, 65, 110, 104] \<and>
       timeLimit r = Some 60"
  by (rule parse_title_timeLimit)

end
